theory Spec2Isabelle
  imports Complex_Main "HOL-Library.Word"
begin

unbundle bit_operations_syntax

section \<open>Machine types and constants of main.c\<close>

type_synonym u8 = "8 word"
type_synonym u32 = "32 word"

text \<open>
  The C type \<open>int\<close> (32 bits on the target) is modelled by \<open>int\<close>. Every \<open>int\<close> of the
  program except the frame counter of \<open>main\<close> stays far below \<open>2 ^ 31\<close>; the increment of the
  frame counter at \<open>INT_MAX\<close>, undefined in C, is an explicit failure of the model.
\<close>

definition MATRIX_WIDTH :: int where
  "MATRIX_WIDTH = 32"

definition MATRIX_HEIGHT :: int where
  "MATRIX_HEIGHT = 32"

text \<open>The macro is \<open>MATRIX_WIDTH*MATRIX_HEIGHT\<close>, unparenthesised; it is only used alone.\<close>

definition MATRIX_SIZE :: int where
  "MATRIX_SIZE = MATRIX_WIDTH * MATRIX_HEIGHT"

definition waits :: "int list" where
  "waits = [10, 20, 40, 80, 160, 320, 640, 1280]"

definition scan :: int where
  "scan = MATRIX_HEIGHT div 2"

definition uartAliveMsg :: string where
  "uartAliveMsg = ''200 frames passed''"

subsection \<open>Array accesses\<close>

text \<open>
  A C array is a list. An access outside the array is undefined in C; the model makes it the
  failure \<open>None\<close>, so that a result \<open>Some\<close> means that every access was inside its array.
\<close>

definition array_get :: "'a list \<Rightarrow> int \<Rightarrow> 'a option" where
  "array_get xs i = (if 0 \<le> i \<and> i < int (length xs) then Some (xs ! nat i) else None)"

definition array_set :: "'a list \<Rightarrow> int \<Rightarrow> 'a \<Rightarrow> 'a list option" where
  "array_set xs i v = (if 0 \<le> i \<and> i < int (length xs) then Some (xs[nat i := v]) else None)"

section \<open>The output lines\<close>

text \<open>
  Modelled from the spec: the device header \<open>stm32f4xx.h\<close> (the registers \<open>BSRRL\<close>, \<open>BSRRH\<close>,
  \<open>ODR\<close> and the masks \<open>GPIO_PIN_n\<close>) is not among the sources. The spec describes the
  outputs as boolean-level lines; a write of \<open>GPIO_PIN_n\<close> to \<open>BSRRL\<close> (the set half of the
  bit set/reset register) drives pin \<open>n\<close> of the port high, a write to \<open>BSRRH\<close> (the reset
  half) drives it low, and \<open>ODR ^= (1 << n)\<close> inverts it.

  Pin assignment, from the header comment of main.c: r1, g1, b1 are pins 5, 6, 7 of port A
  and r2, g2, b2 pins 8, 9, 10; the address lines A, B, C, D are pins 5, 6, 8, 9 of port B
  and OE is pin 10; CLK is pin 7 of port C and STB pin 0.
\<close>

datatype pin = GPIOA nat | GPIOB nat | GPIOC nat

type_synonym panel = "pin \<Rightarrow> bool"

definition BSRRL :: "pin \<Rightarrow> panel \<Rightarrow> panel" where
  "BSRRL p g = g(p := True)"

definition BSRRH :: "pin \<Rightarrow> panel \<Rightarrow> panel" where
  "BSRRH p g = g(p := False)"

definition ODR_xor :: "pin \<Rightarrow> panel \<Rightarrow> panel" where
  "ODR_xor p g = g(p := \<not> g p)"

text \<open>
  The state of the hardware is the level of every pin, together with the trace: one entry
  for every call of a driver function and every macro executed so far, in program order,
  each with the pin levels right after it.
\<close>

datatype event =
    EvSetRow int
  | EvSetRGB u32 u32 u8
  | EvClkToggle
  | EvStrobe
  | EvDispOn
  | EvNop
  | EvDispOff

record hw =
  pins :: panel
  trace :: "(event \<times> panel) list"

definition emit :: "event \<Rightarrow> hw \<Rightarrow> hw" where
  "emit e st = st\<lparr>trace := trace st @ [(e, pins st)]\<rparr>"

subsection \<open>The macros\<close>

definition DISP_ON :: "hw \<Rightarrow> hw" where
  "DISP_ON st = emit EvDispOn (st\<lparr>pins := BSRRH (GPIOB 10) (pins st)\<rparr>)"

definition DISP_OFF :: "hw \<Rightarrow> hw" where
  "DISP_OFF st = emit EvDispOff (st\<lparr>pins := BSRRL (GPIOB 10) (pins st)\<rparr>)"

definition CLK_TOGGLE :: "hw \<Rightarrow> hw" where
  "CLK_TOGGLE st = emit EvClkToggle (st\<lparr>pins := ODR_xor (GPIOC 7) (ODR_xor (GPIOC 7) (pins st))\<rparr>)"

definition STROBE :: "hw \<Rightarrow> hw" where
  "STROBE st = emit EvStrobe (st\<lparr>pins := BSRRH (GPIOC 0) (BSRRL (GPIOC 0) (pins st))\<rparr>)"

text \<open>The display is enabled while OE (pin 10 of port B) is low.\<close>

definition display_off :: "panel \<Rightarrow> bool" where
  "display_off g = g (GPIOB 10)"

subsection \<open>setRow\<close>

definition setRow :: "int \<Rightarrow> hw \<Rightarrow> hw" where
  "setRow row st =
    (let g = pins st;
         g = (if row AND 1 \<noteq> 0 then BSRRL (GPIOB 5) g else BSRRH (GPIOB 5) g);
         g = (if row AND 2 \<noteq> 0 then BSRRL (GPIOB 6) g else BSRRH (GPIOB 6) g);
         g = (if row AND 4 \<noteq> 0 then BSRRL (GPIOB 8) g else BSRRH (GPIOB 8) g);
         g = (if row AND 8 \<noteq> 0 then BSRRL (GPIOB 9) g else BSRRH (GPIOB 9) g)
     in emit (EvSetRow row) (st\<lparr>pins := g\<rparr>))"

text \<open>Reading the four address lines back as a number, line A the least significant bit.\<close>

definition decode_row :: "panel \<Rightarrow> int" where
  "decode_row g =
     (if g (GPIOB 5) then 1 else 0) + (if g (GPIOB 6) then 2 else 0)
   + (if g (GPIOB 8) then 4 else 0) + (if g (GPIOB 9) then 8 else 0)"

subsection \<open>setRGB\<close>

text \<open>
  \<open>plane\<close> is a \<open>uint8_t\<close>, promoted to \<open>int\<close>; \<open>1 << n\<close> is a shift of the \<open>int\<close> 1, which
  is undefined in C from \<open>n = 31\<close> on. The largest shift of the function is by \<open>plane + 16\<close>,
  so the model fails when \<open>plane + 16\<close> reaches 31. Below that, \<open>1 << n\<close> is the positive
  \<open>int\<close> \<open>2 ^ n\<close>, converted to \<open>uint32_t\<close> for the \<open>&\<close> without a change of value.
\<close>

definition setRGB :: "u32 \<Rightarrow> u32 \<Rightarrow> u8 \<Rightarrow> hw \<Rightarrow> hw option" where
  "setRGB rgb1 rgb2 plane st =
    (if unat plane + 16 < 31 then
       (let n = unat plane;
            g = pins st;
            g = (if rgb1 AND push_bit n 1 \<noteq> 0 then BSRRL (GPIOA 5) g else BSRRH (GPIOA 5) g);
            g = (if rgb1 AND push_bit (n + 8) 1 \<noteq> 0 then BSRRL (GPIOA 6) g else BSRRH (GPIOA 6) g);
            g = (if rgb1 AND push_bit (n + 16) 1 \<noteq> 0 then BSRRL (GPIOA 7) g else BSRRH (GPIOA 7) g);
            g = (if rgb2 AND push_bit n 1 \<noteq> 0 then BSRRL (GPIOA 8) g else BSRRH (GPIOA 8) g);
            g = (if rgb2 AND push_bit (n + 8) 1 \<noteq> 0 then BSRRL (GPIOA 9) g else BSRRH (GPIOA 9) g);
            g = (if rgb2 AND push_bit (n + 16) 1 \<noteq> 0 then BSRRL (GPIOA 10) g else BSRRH (GPIOA 10) g)
        in Some (emit (EvSetRGB rgb1 rgb2 plane) (st\<lparr>pins := g\<rparr>)))
     else None)"

subsection \<open>showLine\<close>

function nop_loop :: "int \<Rightarrow> int \<Rightarrow> hw \<Rightarrow> hw" where
  "nop_loop c amount st = (if c < amount then nop_loop (c + 1) amount (emit EvNop st) else st)"
  by pat_completeness auto
termination
  by (relation "measure (\<lambda>(c, amount, st). nat (amount - c))") auto

declare nop_loop.simps [simp del]

definition showLine :: "int \<Rightarrow> hw \<Rightarrow> hw" where
  "showLine amount st = DISP_OFF (nop_loop 0 amount (DISP_ON (STROBE st)))"

section \<open>displayBuffer\<close>

text \<open>
  The three nested loops, innermost first. \<open>plane\<close> is an \<open>int\<close> in the loop and is converted
  to \<open>uint8_t\<close> at the call of \<open>setRGB\<close>.
\<close>

function column_loop :: "u32 list \<Rightarrow> int \<Rightarrow> int \<Rightarrow> int \<Rightarrow> int \<Rightarrow> hw \<Rightarrow> hw option" where
  "column_loop buffer offset1 offset2 plane x st =
    (if x < MATRIX_WIDTH then
       (case array_get buffer (offset1 + x) of
          None \<Rightarrow> None
        | Some rgb1 \<Rightarrow>
            (case array_get buffer (offset2 + x) of
               None \<Rightarrow> None
             | Some rgb2 \<Rightarrow>
                 (case setRGB rgb1 rgb2 (word_of_int plane) st of
                    None \<Rightarrow> None
                  | Some st1 \<Rightarrow> column_loop buffer offset1 offset2 plane (x + 1) (CLK_TOGGLE st1))))
     else Some st)"
  by pat_completeness auto
termination
  by (relation "measure (\<lambda>(buffer, offset1, offset2, plane, x, st). nat (MATRIX_WIDTH - x))") auto

declare column_loop.simps [simp del]

function plane_loop :: "u32 list \<Rightarrow> int \<Rightarrow> int \<Rightarrow> int \<Rightarrow> hw \<Rightarrow> hw option" where
  "plane_loop buffer offset1 offset2 plane st =
    (if plane < 8 then
       (case column_loop buffer offset1 offset2 plane 0 st of
          None \<Rightarrow> None
        | Some st1 \<Rightarrow>
            (case array_get waits plane of
               None \<Rightarrow> None
             | Some amount \<Rightarrow> plane_loop buffer offset1 offset2 (plane + 1) (showLine amount st1)))
     else Some st)"
  by pat_completeness auto
termination
  by (relation "measure (\<lambda>(buffer, offset1, offset2, plane, st). nat (8 - plane))") auto

declare plane_loop.simps [simp del]

function row_loop :: "u32 list \<Rightarrow> int \<Rightarrow> hw \<Rightarrow> hw option" where
  "row_loop buffer s st =
    (if s < scan then
       (let st1 = setRow s st;
            offset1 = MATRIX_WIDTH * s;
            offset2 = MATRIX_WIDTH * (s + scan)
        in case plane_loop buffer offset1 offset2 0 st1 of
             None \<Rightarrow> None
           | Some st2 \<Rightarrow> row_loop buffer (s + 1) st2)
     else Some st)"
  by pat_completeness auto
termination
  by (relation "measure (\<lambda>(buffer, s, st). nat (scan - s))") auto

declare row_loop.simps [simp del]

definition displayBuffer :: "u32 list \<Rightarrow> hw \<Rightarrow> hw option" where
  "displayBuffer buffer st = row_loop buffer 0 st"

section \<open>The gamma table\<close>

text \<open>
  \<open>gammaTable[i] = 255*pow((i/256.0),1.6)\<close>, converted to \<open>uint8_t\<close> by truncation. The
  model computes with exact real numbers in place of the doubles of \<open>pow\<close>: the entry is the
  largest \<open>k\<close> with \<open>k \<le> 255 * (i/256) ^ (8/5)\<close>, that is, with
  \<open>k ^ 5 * 256 ^ 8 \<le> 255 ^ 5 * i ^ 8\<close>, found by a search downwards from 255; that this is
  \<open>\<lfloor>255 * (i/256) powr 1.6\<rfloor>\<close> is lemma \<open>uint_gamma_entry\<close> below. No value
  \<open>255 * (i/256) ^ 1.6\<close> with \<open>0 < i < 256\<close> is nearer than \<open>0.0039\<close> to an integer (the nearest
  is \<open>255/256\<close> at \<open>i = 8\<close>), and \<open>pow(0, 1.6)\<close> is exactly 0, so the rounding of \<open>pow\<close> in
  double precision does not change any entry.
\<close>

definition gamma_le :: "nat \<Rightarrow> nat \<Rightarrow> bool" where
  "gamma_le k i = (k ^ 5 * 256 ^ 8 \<le> 255 ^ 5 * i ^ 8)"

fun gamma_search :: "nat \<Rightarrow> nat \<Rightarrow> nat" where
  "gamma_search i 0 = 0"
| "gamma_search i (Suc k) = (if gamma_le (Suc k) i then Suc k else gamma_search i k)"

definition gamma_entry :: "nat \<Rightarrow> u8" where
  "gamma_entry i = of_nat (gamma_search i 255)"

function gamma_loop :: "int \<Rightarrow> u8 list \<Rightarrow> u8 list option" where
  "gamma_loop i table =
    (if i < 256 then
       (case array_set table i (gamma_entry (nat i)) of
          None \<Rightarrow> None
        | Some table1 \<Rightarrow> gamma_loop (i + 1) table1)
     else Some table)"
  by pat_completeness auto
termination
  by (relation "measure (\<lambda>(i, table). nat (256 - i))") auto

declare gamma_loop.simps [simp del]

text \<open>The table as \<open>main\<close> builds it, from the zero-initialised global array.\<close>

definition build_gammaTable :: "u8 list option" where
  "build_gammaTable = gamma_loop 0 (replicate 256 0)"

section \<open>randomizeFramebuffer\<close>

text \<open>The operator \<open>%\<close> of C: the remainder of the division truncated towards zero,
  undefined for the divisor 0.\<close>

definition c_rem :: "int \<Rightarrow> int \<Rightarrow> int option" where
  "c_rem a b = (if b = 0 then None else Some (a - b * (sgn a * sgn b * (\<bar>a\<bar> div \<bar>b\<bar>))))"

text \<open>
  \<open>rand()\<close> returns a value between 0 and \<open>RAND_MAX\<close>: the results of its successive calls
  are a parameter \<open>rnd :: nat \<Rightarrow> nat\<close>, and the generator state counts the calls made. The
  order of the three calls within one assignment is not fixed by C; the model takes them
  from left to right.
\<close>

record gen =
  counter :: u8
  rand_calls :: nat

definition gamma_rand :: "u8 list \<Rightarrow> (nat \<Rightarrow> nat) \<Rightarrow> int \<Rightarrow> nat \<Rightarrow> u8 option" where
  "gamma_rand table rnd max' n =
    (case c_rem (int (rnd n)) max' of
       None \<Rightarrow> None
     | Some j \<Rightarrow> array_get table j)"

text \<open>
  The pixel \<open>0x00 | (c0 << 0) | (c1 << 8) | (c2 << 16)\<close>: the three \<open>uint8_t\<close> are promoted to
  \<open>int\<close>, the result is below \<open>2 ^ 24\<close> and is stored as a \<open>uint32_t\<close>.
\<close>

definition pack :: "u8 \<Rightarrow> u8 \<Rightarrow> u8 \<Rightarrow> u32" where
  "pack c0 c1 c2 = 0 OR push_bit 0 (ucast c0) OR push_bit 8 (ucast c1) OR push_bit 16 (ucast c2)"

function fill_loop ::
  "u8 list \<Rightarrow> (nat \<Rightarrow> nat) \<Rightarrow> int \<Rightarrow> int \<Rightarrow> u32 list \<times> nat \<Rightarrow> (u32 list \<times> nat) option" where
  "fill_loop table rnd max' i (buffer, n) =
    (if i < MATRIX_SIZE then
       (case gamma_rand table rnd max' n of
          None \<Rightarrow> None
        | Some c0 \<Rightarrow>
            (case gamma_rand table rnd max' (n + 1) of
               None \<Rightarrow> None
             | Some c1 \<Rightarrow>
                 (case gamma_rand table rnd max' (n + 2) of
                    None \<Rightarrow> None
                  | Some c2 \<Rightarrow>
                      (case array_set buffer i (pack c0 c1 c2) of
                         None \<Rightarrow> None
                       | Some buffer1 \<Rightarrow> fill_loop table rnd max' (i + 1) (buffer1, n + 3)))))
     else Some (buffer, n))"
  by pat_completeness auto
termination
  by (relation "measure (\<lambda>(table, rnd, max', i, b). nat (MATRIX_SIZE - i))") auto

declare fill_loop.simps [simp del]

text \<open>The ceiling \<open>max\<close>: the table entry at the counter, replaced by 1 when it is 0.\<close>

definition ceiling_of :: "u8 \<Rightarrow> int" where
  "ceiling_of m = (if uint m = 0 then 1 else uint m)"

definition randomizeFramebuffer ::
  "u8 list \<Rightarrow> (nat \<Rightarrow> nat) \<Rightarrow> u32 list \<Rightarrow> gen \<Rightarrow> (u32 list \<times> gen) option" where
  "randomizeFramebuffer table rnd buffer g =
    (let c = counter g + 1 in
     case array_get table (uint c) of
       None \<Rightarrow> None
     | Some m \<Rightarrow>
         (case fill_loop table rnd (ceiling_of m) 0 (buffer, rand_calls g) of
            None \<Rightarrow> None
          | Some (buffer1, n1) \<Rightarrow> Some (buffer1, \<lparr>counter = c, rand_calls = n1\<rparr>)))"

text \<open>The three 8-bit channels of a pixel.\<close>

definition channel :: "nat \<Rightarrow> u32 \<Rightarrow> u8" where
  "channel k px = ucast (drop_bit (8 * k) px)"

section \<open>main\<close>

text \<open>The framebuffer after \<open>memset\<close> and the four stores of the test pattern.\<close>

definition test_pattern :: "u32 list option" where
  "test_pattern =
    (case array_set (replicate (nat MATRIX_SIZE) 0) 0 0x00000050 of
       None \<Rightarrow> None
     | Some fb1 \<Rightarrow>
         (case array_set fb1 31 0x00005000 of
            None \<Rightarrow> None
          | Some fb2 \<Rightarrow>
              (case array_set fb2 992 0x00500000 of
                 None \<Rightarrow> None
               | Some fb3 \<Rightarrow> array_set fb3 1023 0x00505000)))"

text \<open>
  The state of the program: the hardware, the global arrays, the generator, the
  number of reads of the volatile flag \<open>UartReady\<close> made so far, the calls made by \<open>main\<close>
  in program order, and the local \<open>frame\<close>.
\<close>

datatype call = CallDisplayBuffer | CallRandomize | CallTransmit string | CallReceive

record prog =
  io :: hw
  framebuffer :: "u32 list"
  gammaTable :: "u8 list"
  generator :: gen
  uart_reads :: nat
  calls :: "call list"
  frame :: int

text \<open>
  \<open>while (UartReady != SET){}\<close>: the flag is set by the interrupt handlers, outside the
  program text. \<open>ready t\<close> is the value of the \<open>t\<close>-th read of the flag; the loop ends at the
  first read that finds it set and returns the number of reads made, and a loop that never
  finds it set does not return (\<open>None\<close>). The assignment \<open>UartReady = RESET\<close> after the loop
  needs no state of its own: what the next read finds is again up to \<open>ready\<close>. The result
  of \<open>HAL_UART_Transmit_IT\<close> is ignored by \<open>main\<close>, and the call is recorded as made.
\<close>

partial_function (option) wait_UartReady :: "(nat \<Rightarrow> bool) \<Rightarrow> nat \<Rightarrow> nat option" where
  "wait_UartReady ready t = (if ready t then Some (Suc t) else wait_UartReady ready (Suc t))"

text \<open>The test frames: \<open>for (int i=0; i<500; i++) displayBuffer(framebuffer)\<close>.\<close>

function test_frames :: "int \<Rightarrow> u32 list \<Rightarrow> hw \<Rightarrow> hw option" where
  "test_frames i buffer st =
    (if i < 500 then
       (case displayBuffer buffer st of
          None \<Rightarrow> None
        | Some st1 \<Rightarrow> test_frames (i + 1) buffer st1)
     else Some st)"
  by pat_completeness auto
termination
  by (relation "measure (\<lambda>(i, buffer, st). nat (500 - i))") auto

declare test_frames.simps [simp del]

text \<open>
  \<open>main\<close> up to the entry of \<open>while(1)\<close>, from the pin levels \<open>g0\<close> that \<open>initGPIO\<close> leaves
  (\<open>setup_hw.h\<close> is not among the sources). The global \<open>counter\<close> starts at 0.
\<close>

definition startup :: "panel \<Rightarrow> prog option" where
  "startup g0 =
    (let st0 = DISP_OFF \<lparr>pins = g0, trace = []\<rparr> in
     case build_gammaTable of
       None \<Rightarrow> None
     | Some table \<Rightarrow>
         (case test_pattern of
            None \<Rightarrow> None
          | Some fb \<Rightarrow>
              (case test_frames 0 fb st0 of
                 None \<Rightarrow> None
               | Some st1 \<Rightarrow>
                   Some \<lparr>io = st1, framebuffer = fb, gammaTable = table,
                         generator = \<lparr>counter = 0, rand_calls = 0\<rparr>, uart_reads = 0,
                         calls = [CallTransmit ''RGB-matrix started'', CallReceive]
                                   @ replicate 500 CallDisplayBuffer,
                         frame = 0\<rparr>)))"

text \<open>One iteration of \<open>while(1)\<close>, in its three statements.\<close>

definition main_display :: "prog \<Rightarrow> prog option" where
  "main_display st =
    (case displayBuffer (framebuffer st) (io st) of
       None \<Rightarrow> None
     | Some io1 \<Rightarrow> Some (st\<lparr>io := io1, calls := calls st @ [CallDisplayBuffer]\<rparr>))"

definition main_randomize :: "(nat \<Rightarrow> nat) \<Rightarrow> prog \<Rightarrow> prog option" where
  "main_randomize rnd st =
    (if frame st = 2147483647 then None
     else
       (let st1 = st\<lparr>frame := frame st + 1\<rparr> in
        if c_rem (frame st1) 5 = Some 0 then
          (case randomizeFramebuffer (gammaTable st1) rnd (framebuffer st1) (generator st1) of
             None \<Rightarrow> None
           | Some (fb, g) \<Rightarrow>
               Some (st1\<lparr>framebuffer := fb, generator := g,
                         calls := calls st1 @ [CallRandomize]\<rparr>))
        else Some st1))"

definition main_heartbeat :: "(nat \<Rightarrow> bool) \<Rightarrow> prog \<Rightarrow> prog option" where
  "main_heartbeat ready st =
    (if c_rem (frame st) 200 = Some 0 then
       (case wait_UartReady ready (uart_reads st) of
          None \<Rightarrow> None
        | Some t \<Rightarrow>
            Some (st\<lparr>uart_reads := t, calls := calls st @ [CallTransmit (take 17 uartAliveMsg)]\<rparr>))
     else Some st)"

definition main_iter :: "(nat \<Rightarrow> bool) \<Rightarrow> (nat \<Rightarrow> nat) \<Rightarrow> prog \<Rightarrow> prog option" where
  "main_iter ready rnd st =
    (case main_display st of
       None \<Rightarrow> None
     | Some st1 \<Rightarrow>
         (case main_randomize rnd st1 of
            None \<Rightarrow> None
          | Some st2 \<Rightarrow> main_heartbeat ready st2))"

text \<open>The first \<open>n\<close> iterations of \<open>while(1)\<close>.\<close>

fun main_loop :: "(nat \<Rightarrow> bool) \<Rightarrow> (nat \<Rightarrow> nat) \<Rightarrow> nat \<Rightarrow> prog \<Rightarrow> prog option" where
  "main_loop ready rnd 0 st = Some st"
| "main_loop ready rnd (Suc n) st =
    (case main_iter ready rnd st of
       None \<Rightarrow> None
     | Some st1 \<Rightarrow> main_loop ready rnd n st1)"

section \<open>What the scan is required to do\<close>

text \<open>
  The events of one pass as the specification orders them: for each row pair its address,
  then for each plane the 32 columns in ascending order, each followed by a clock pulse,
  then the latch, the display enabled for the plane's weight, and the display disabled.
\<close>

definition shift_events :: "u32 list \<Rightarrow> nat \<Rightarrow> nat \<Rightarrow> nat \<Rightarrow> nat \<Rightarrow> event list" where
  "shift_events buffer o1 o2 p x0 =
     concat (map (\<lambda>x. [EvSetRGB (buffer ! (o1 + x)) (buffer ! (o2 + x)) (of_nat p), EvClkToggle])
               [x0..<32])"

definition hold_events :: "nat \<Rightarrow> event list" where
  "hold_events n = [EvStrobe, EvDispOn] @ replicate n EvNop @ [EvDispOff]"

definition plane_events :: "u32 list \<Rightarrow> nat \<Rightarrow> nat \<Rightarrow> event list" where
  "plane_events buffer s p =
     shift_events buffer (32 * s) (32 * (s + 16)) p 0 @ hold_events (nat (waits ! p))"

definition row_events :: "u32 list \<Rightarrow> nat \<Rightarrow> event list" where
  "row_events buffer s = EvSetRow (int s) # concat (map (plane_events buffer s) [0..<8])"

definition frame_events :: "u32 list \<Rightarrow> event list" where
  "frame_events buffer = concat (map (row_events buffer) [0..<16])"

text \<open>The entries that a run from \<open>st\<close> to \<open>st'\<close> has added to the trace, and their events.\<close>

definition new_entries :: "hw \<Rightarrow> hw \<Rightarrow> (event \<times> panel) list" where
  "new_entries st st' = drop (length (trace st)) (trace st')"

definition new_events :: "hw \<Rightarrow> hw \<Rightarrow> event list" where
  "new_events st st' = map fst (new_entries st st')"

text \<open>The arguments of the calls of \<open>setRow\<close> and of \<open>setRGB\<close> in a sequence of events, in order.\<close>

fun setRow_arg :: "event \<Rightarrow> int list" where
  "setRow_arg (EvSetRow row) = [row]"
| "setRow_arg e = []"

fun setRGB_arg :: "event \<Rightarrow> (u32 \<times> u32 \<times> u8) list" where
  "setRGB_arg (EvSetRGB rgb1 rgb2 plane) = [(rgb1, rgb2, plane)]"
| "setRGB_arg e = []"


definition setRGB_calls :: "event list \<Rightarrow> (u32 \<times> u32 \<times> u8) list" where
  "setRGB_calls es = concat (map setRGB_arg es)"



text \<open>
  What the entries of the trace of a scan satisfy. Right after \<open>setRGB\<close> the six colour
  lines carry the bits \<open>plane\<close>, \<open>plane + 8\<close> and \<open>plane + 16\<close> of the two pixels; and the
  display is enabled at the entries of \<open>DISP_ON\<close> and of the \<open>nop\<close>s of a hold, and disabled
  at every other entry.
\<close>

definition rgb_lines :: "u32 \<Rightarrow> u32 \<Rightarrow> nat \<Rightarrow> panel \<Rightarrow> bool" where
  "rgb_lines rgb1 rgb2 n g =
    (g (GPIOA 5) = bit rgb1 n \<and> g (GPIOA 6) = bit rgb1 (n + 8) \<and> g (GPIOA 7) = bit rgb1 (n + 16) \<and>
     g (GPIOA 8) = bit rgb2 n \<and> g (GPIOA 9) = bit rgb2 (n + 8) \<and> g (GPIOA 10) = bit rgb2 (n + 16))"

text \<open>What holds at an entry whatever the pin levels the scan started with: the colour lines
  after \<open>setRGB\<close>, the latch line STB low again after the pulse of \<open>STROBE\<close>, and the display
  enabled (OE low) at \<open>DISP_ON\<close> and at every \<open>nop\<close> of a hold.\<close>

fun lines_ok :: "event \<times> panel \<Rightarrow> bool" where
  "lines_ok (EvSetRGB rgb1 rgb2 plane, g) = rgb_lines rgb1 rgb2 (unat plane) g"
| "lines_ok (EvStrobe, g) = (\<not> g (GPIOC 0))"
| "lines_ok (EvDispOn, g) = (\<not> display_off g)"
| "lines_ok (EvNop, g) = (\<not> display_off g)"
| "lines_ok (e, g) = True"

fun holding :: "event \<Rightarrow> bool" where
  "holding EvDispOn = True"
| "holding EvNop = True"
| "holding e = False"

definition blank_ok :: "event \<times> panel \<Rightarrow> bool" where
  "blank_ok eg = (display_off (snd eg) = (\<not> holding (fst eg)))"

definition extends_by :: "hw \<Rightarrow> event list \<Rightarrow> hw \<Rightarrow> bool" where
  "extends_by st es st' =
    (\<exists>new. trace st' = trace st @ new \<and> map fst new = es \<and> list_all lines_ok new \<and>
           (display_off (pins st) \<longrightarrow> list_all blank_ok new \<and> display_off (pins st')))"

text \<open>The display is disabled, and was disabled or enabled as required at every entry so far.\<close>

definition blanked :: "hw \<Rightarrow> bool" where
  "blanked st = (display_off (pins st) \<and> list_all blank_ok (trace st))"



text \<open>The calls of \<open>setRGB\<close> in a trace, each with the pin levels right after it.\<close>

definition setRGB_snaps :: "(event \<times> panel) list \<Rightarrow> ((u32 \<times> u32 \<times> u8) \<times> panel) list" where
  "setRGB_snaps new = concat (map (\<lambda>eg. map (\<lambda>a. (a, snd eg)) (setRGB_arg (fst eg))) new)"

text \<open>The number of non-zero channels of a pixel.\<close>

definition nonzero_channels :: "u32 \<Rightarrow> nat" where
  "nonzero_channels px = length (filter (\<lambda>k. channel k px \<noteq> 0) [0, 1, 2])"

section \<open>Properties\<close>

subsection \<open>The driver functions\<close>

lemma setRow_pins:
  "pins (setRow row st) =
     (pins st)(GPIOB 5 := row AND 1 \<noteq> 0, GPIOB 6 := row AND 2 \<noteq> 0,
               GPIOB 8 := row AND 4 \<noteq> 0, GPIOB 9 := row AND 8 \<noteq> 0)"
  by (simp add: setRow_def emit_def BSRRL_def BSRRH_def Let_def fun_eq_iff)

lemma and_pow2_bit_int:
  "((row :: int) AND 1 \<noteq> 0) = bit row 0" "(row AND 2 \<noteq> 0) = bit row 1"
  "(row AND 4 \<noteq> 0) = bit row 2" "(row AND 8 \<noteq> 0) = bit row 3"
  using bit_iff_and_push_bit_not_eq_0 [of row 0] bit_iff_and_push_bit_not_eq_0 [of row 1]
    bit_iff_and_push_bit_not_eq_0 [of row 2] bit_iff_and_push_bit_not_eq_0 [of row 3]
  by simp_all

lemma extends_by_refl: "extends_by st [] st"
  by (simp add: extends_by_def)

lemma extends_by_trans:
  assumes "extends_by st es1 st1" "extends_by st1 es2 st2"
  shows "extends_by st (es1 @ es2) st2"
proof -
  from assms(1) obtain n1 where n1: "trace st1 = trace st @ n1" "map fst n1 = es1"
    "list_all lines_ok n1"
    "display_off (pins st) \<longrightarrow> list_all blank_ok n1 \<and> display_off (pins st1)"
    unfolding extends_by_def by blast
  from assms(2) obtain n2 where n2: "trace st2 = trace st1 @ n2" "map fst n2 = es2"
    "list_all lines_ok n2"
    "display_off (pins st1) \<longrightarrow> list_all blank_ok n2 \<and> display_off (pins st2)"
    unfolding extends_by_def by blast
  have "trace st2 = trace st @ (n1 @ n2)" "map fst (n1 @ n2) = es1 @ es2"
    "list_all lines_ok (n1 @ n2)"
    using n1 n2 by simp_all
  moreover have "display_off (pins st) \<longrightarrow> list_all blank_ok (n1 @ n2) \<and> display_off (pins st2)"
    using n1(4) n2(4) by simp
  ultimately show ?thesis unfolding extends_by_def by blast
qed

lemma extends_by_setRow: "extends_by st [EvSetRow row] (setRow row st)"
  unfolding extends_by_def
  by (rule exI [of _ "[(EvSetRow row, pins (setRow row st))]"])
     (simp add: setRow_def emit_def Let_def display_off_def BSRRL_def BSRRH_def blank_ok_def)

lemma drive_if: "(if c then BSRRL p g else BSRRH p g) = g(p := c)"
  by (simp add: BSRRL_def BSRRH_def)

lemma and_push_bit_word: "((w :: u32) AND 2 ^ n \<noteq> 0) = bit w n"
  using bit_iff_and_push_bit_not_eq_0 [of w n] by simp

lemma setRGB_Some:
  assumes "unat plane < 15"
  shows "\<exists>st'. setRGB rgb1 rgb2 plane st = Some st'
           \<and> trace st' = trace st @ [(EvSetRGB rgb1 rgb2 plane, pins st')]
           \<and> rgb_lines rgb1 rgb2 (unat plane) (pins st')
           \<and> display_off (pins st') = display_off (pins st)"
  using assms
  by (simp add: setRGB_def emit_def Let_def display_off_def drive_if rgb_lines_def
      and_push_bit_word)

lemma extends_by_setRGB:
  assumes "setRGB rgb1 rgb2 plane st = Some st'"
  shows "extends_by st [EvSetRGB rgb1 rgb2 plane] st'"
proof -
  have lt: "unat plane < 15" using assms by (simp add: setRGB_def split: if_splits)
  from setRGB_Some [OF lt, of rgb1 rgb2 st] assms
  have "trace st' = trace st @ [(EvSetRGB rgb1 rgb2 plane, pins st')]"
    "rgb_lines rgb1 rgb2 (unat plane) (pins st')" "display_off (pins st') = display_off (pins st)"
    by auto
  then show ?thesis unfolding extends_by_def
    by (intro exI [of _ "[(EvSetRGB rgb1 rgb2 plane, pins st')]"]) (simp add: blank_ok_def)
qed

lemma extends_by_CLK_TOGGLE: "extends_by st [EvClkToggle] (CLK_TOGGLE st)"
  unfolding extends_by_def
  by (rule exI [of _ "[(EvClkToggle, pins (CLK_TOGGLE st))]"])
     (simp add: CLK_TOGGLE_def emit_def display_off_def ODR_xor_def blank_ok_def)

lemma nop_loop_run:
  "trace (nop_loop c amount st) = trace st @ replicate (nat (amount - c)) (EvNop, pins st)
   \<and> pins (nop_loop c amount st) = pins st"
proof (induction c amount st rule: nop_loop.induct)
  case (1 c amount st)
  show ?case
  proof (cases "c < amount")
    case True
    then have "nat (amount - c) = Suc (nat (amount - (c + 1)))" by simp
    with True 1 show ?thesis
      by (subst (1 2) nop_loop.simps) (simp add: emit_def replicate_append_same)
  next
    case False
    then show ?thesis by (subst (1 2) nop_loop.simps) simp
  qed
qed

lemma extends_by_showLine: "extends_by st (hold_events (nat amount)) (showLine amount st)"
proof -
  let ?g1 = "BSRRH (GPIOC 0) (BSRRL (GPIOC 0) (pins st))"
  let ?g2 = "BSRRH (GPIOB 10) ?g1"
  let ?g3 = "BSRRL (GPIOB 10) ?g2"
  let ?new = "[(EvStrobe, ?g1), (EvDispOn, ?g2)] @ replicate (nat amount) (EvNop, ?g2) @ [(EvDispOff, ?g3)]"
  have "trace (showLine amount st) = trace st @ ?new" "pins (showLine amount st) = ?g3"
    by (simp_all add: showLine_def DISP_OFF_def DISP_ON_def STROBE_def emit_def nop_loop_run)
  moreover have "map fst ?new = hold_events (nat amount)"
    by (simp add: hold_events_def)
  moreover have "list_all lines_ok ?new"
    by (simp add: list_all_iff display_off_def BSRRL_def BSRRH_def)
  moreover have "display_off (pins st) \<longrightarrow> list_all blank_ok ?new \<and> display_off ?g3"
    by (simp add: display_off_def BSRRL_def BSRRH_def list_all_iff blank_ok_def)
  ultimately show ?thesis unfolding extends_by_def by metis
qed

lemma array_get_nat: "i < length xs \<Longrightarrow> array_get xs (int i) = Some (xs ! i)"
  by (simp add: array_get_def)

lemma plane_word: "p < 8 \<Longrightarrow> unat (of_nat p :: u8) = p"
  by (simp add: unat_of_nat)

lemma shift_events_step:
  "x < 32 \<Longrightarrow> shift_events buffer o1 o2 p x =
     [EvSetRGB (buffer ! (o1 + x)) (buffer ! (o2 + x)) (of_nat p), EvClkToggle]
       @ shift_events buffer o1 o2 p (Suc x)"
  by (simp add: shift_events_def upt_conv_Cons)

lemma column_loop_run:
  assumes "p < 8" "o1 + 32 \<le> length buffer" "o2 + 32 \<le> length buffer"
  shows "x \<le> 32 \<Longrightarrow> \<exists>st'. column_loop buffer (int o1) (int o2) (int p) (int x) st = Some st'
           \<and> extends_by st (shift_events buffer o1 o2 p x) st'"
proof (induction "32 - x" arbitrary: x st)
  case 0
  then have "x = 32" by simp
  then show ?case
    by (subst column_loop.simps) (simp add: MATRIX_WIDTH_def shift_events_def extends_by_refl)
next
  case (Suc n)
  then have x: "x < 32" by simp
  let ?rgb1 = "buffer ! (o1 + x)" and ?rgb2 = "buffer ! (o2 + x)"
  have g1: "array_get buffer (int o1 + int x) = Some ?rgb1"
    using array_get_nat [of "o1 + x" buffer] x assms(2) by simp
  have g2: "array_get buffer (int o2 + int x) = Some ?rgb2"
    using array_get_nat [of "o2 + x" buffer] x assms(3) by simp
  have "unat (of_nat p :: u8) < 15" using assms(1) by (simp add: plane_word)
  from setRGB_Some [OF this, of ?rgb1 ?rgb2 st]
  obtain st1 where st1: "setRGB ?rgb1 ?rgb2 (of_nat p) st = Some st1" by blast
  have "n = 32 - Suc x" "Suc x \<le> 32" using Suc(2) x by simp_all
  from Suc(1) [OF this, of "CLK_TOGGLE st1"]
  obtain st' where st': "column_loop buffer (int o1) (int o2) (int p) (int (Suc x)) (CLK_TOGGLE st1) = Some st'"
    "extends_by (CLK_TOGGLE st1) (shift_events buffer o1 o2 p (Suc x)) st'"
    by blast
  have "column_loop buffer (int o1) (int o2) (int p) (int x) st = Some st'"
    using x g1 g2 st1 st'(1)
    by (subst column_loop.simps) (simp add: MATRIX_WIDTH_def add.commute)
  moreover have "extends_by st (shift_events buffer o1 o2 p x) st'"
    unfolding shift_events_step [OF x]
    using extends_by_trans [OF extends_by_trans [OF extends_by_setRGB [OF st1] extends_by_CLK_TOGGLE] st'(2)]
    by simp
  ultimately show ?case by blast
qed

lemma plane_loop_run:
  assumes "32 * s + 32 \<le> length buffer" "32 * (s + 16) + 32 \<le> length buffer"
  shows "p \<le> 8 \<Longrightarrow>
     \<exists>st'. plane_loop buffer (int (32 * s)) (int (32 * (s + 16))) (int p) st = Some st'
           \<and> extends_by st (concat (map (plane_events buffer s) [p..<8])) st'"
proof (induction "8 - p" arbitrary: p st)
  case 0
  then have "p = 8" by simp
  then show ?case
    by (subst plane_loop.simps) (simp add: extends_by_refl)
next
  case (Suc n)
  then have p: "p < 8" by simp
  from column_loop_run [OF p assms, of 0 st]
  obtain st1 where st1:
    "column_loop buffer (int (32 * s)) (int (32 * (s + 16))) (int p) 0 st = Some st1"
    "extends_by st (shift_events buffer (32 * s) (32 * (s + 16)) p 0) st1"
    by auto
  have w: "array_get waits (int p) = Some (waits ! p)"
    using p by (intro array_get_nat) (simp add: waits_def)
  have "n = 8 - Suc p" "Suc p \<le> 8" using Suc(2) p by simp_all
  from Suc(1) [OF this, of "showLine (waits ! p) st1"]
  obtain st' where st':
    "plane_loop buffer (int (32 * s)) (int (32 * (s + 16))) (int (Suc p)) (showLine (waits ! p) st1) = Some st'"
    "extends_by (showLine (waits ! p) st1) (concat (map (plane_events buffer s) [Suc p..<8])) st'"
    by blast
  have "plane_loop buffer (int (32 * s)) (int (32 * (s + 16))) (int p) st = Some st'"
    using p st1(1) w st'(1)
    by (subst plane_loop.simps) (simp add: add.commute)
  moreover have "extends_by st (concat (map (plane_events buffer s) [p..<8])) st'"
    using extends_by_trans [OF extends_by_trans [OF st1(2) extends_by_showLine] st'(2)] p
    by (simp add: upt_conv_Cons plane_events_def)
  ultimately show ?case by blast
qed

lemma row_loop_run:
  assumes "length buffer = 1024"
  shows "s \<le> 16 \<Longrightarrow>
     \<exists>st'. row_loop buffer (int s) st = Some st'
           \<and> extends_by st (concat (map (row_events buffer) [s..<16])) st'"
proof (induction "16 - s" arbitrary: s st)
  case 0
  then have "s = 16" by simp
  then show ?case
    by (subst row_loop.simps) (simp add: extends_by_refl scan_def MATRIX_HEIGHT_def)
next
  case (Suc n)
  then have s: "s < 16" by simp
  have b: "32 * s + 32 \<le> length buffer" "32 * (s + 16) + 32 \<le> length buffer"
    using s assms by simp_all
  from plane_loop_run [OF b, of 0 "setRow (int s) st"]
  obtain st2 where st2:
    "plane_loop buffer (int (32 * s)) (int (32 * (s + 16))) 0 (setRow (int s) st) = Some st2"
    "extends_by (setRow (int s) st) (concat (map (plane_events buffer s) [0..<8])) st2"
    by auto
  have "n = 16 - Suc s" "Suc s \<le> 16" using Suc(2) s by simp_all
  from Suc(1) [OF this, of st2]
  obtain st' where st':
    "row_loop buffer (int (Suc s)) st2 = Some st'"
    "extends_by st2 (concat (map (row_events buffer) [Suc s..<16])) st'"
    by blast
  have "row_loop buffer (int s) st = Some st'"
    using s st2(1) st'(1)
    by (subst row_loop.simps)
       (simp add: scan_def MATRIX_HEIGHT_def MATRIX_WIDTH_def Let_def add.commute)
  moreover have "extends_by st (concat (map (row_events buffer) [s..<16])) st'"
    using extends_by_trans [OF extends_by_trans [OF extends_by_setRow st2(2)] st'(2)] s
    by (simp add: upt_conv_Cons row_events_def)
  ultimately show ?case by blast
qed

lemma displayBuffer_run:
  assumes "length buffer = 1024"
  shows "\<exists>st'. displayBuffer buffer st = Some st' \<and> extends_by st (frame_events buffer) st'"
  using row_loop_run [OF assms, of 0 st] by (simp add: displayBuffer_def frame_events_def)


subsection \<open>Counting in the events of a pass\<close>

lemma setRGB_calls_append [simp]: "setRGB_calls (xs @ ys) = setRGB_calls xs @ setRGB_calls ys"
  by (simp add: setRGB_calls_def)

lemma setRGB_calls_concat: "setRGB_calls (concat xss) = concat (map setRGB_calls xss)"
  by (induction xss) (simp_all add: setRGB_calls_def)

lemma setRGB_calls_shift:
  "setRGB_calls (shift_events buffer o1 o2 p x0) =
     map (\<lambda>x. (buffer ! (o1 + x), buffer ! (o2 + x), of_nat p)) [x0..<32]"
proof -
  have "concat (map setRGB_arg (concat (map (\<lambda>x. [EvSetRGB (f x) (g x) w, EvClkToggle]) xs)))
          = map (\<lambda>x. (f x, g x, w)) xs" for f g w and xs :: "nat list"
    by (induction xs) simp_all
  then show ?thesis
    unfolding shift_events_def setRGB_calls_def .
qed

lemma setRGB_calls_hold: "setRGB_calls (hold_events n) = []"
  by (simp add: hold_events_def setRGB_calls_def)

lemma setRGB_calls_plane:
  "setRGB_calls (plane_events buffer s p) =
     map (\<lambda>x. (buffer ! (32 * s + x), buffer ! (32 * (s + 16) + x), of_nat p)) [0..<32]"
  by (simp add: plane_events_def setRGB_calls_shift setRGB_calls_hold)

lemma setRGB_calls_row:
  "setRGB_calls (row_events buffer s) =
     concat (map (\<lambda>p. map (\<lambda>x. (buffer ! (32 * s + x), buffer ! (32 * (s + 16) + x), of_nat p))
                          [0..<32]) [0..<8])"
proof -
  have "setRGB_calls (row_events buffer s) = setRGB_calls (concat (map (plane_events buffer s) [0..<8]))"
    by (simp add: row_events_def setRGB_calls_def)
  then show ?thesis
    by (simp only: setRGB_calls_concat map_map comp_def setRGB_calls_plane)
qed

lemma setRGB_calls_frame:
  "setRGB_calls (frame_events buffer) =
     concat (map (\<lambda>s. concat (map (\<lambda>p. map (\<lambda>x. (buffer ! (32 * s + x), buffer ! (32 * (s + 16) + x), of_nat p))
                          [0..<32]) [0..<8])) [0..<16])"
  by (simp only: frame_events_def setRGB_calls_concat map_map comp_def setRGB_calls_row)


lemma length_setRGB_calls_frame: "length (setRGB_calls (frame_events buffer)) = 4096"
  by (simp add: setRGB_calls_frame length_concat comp_def sum_list_triv)



















subsection \<open>The trace of a pass\<close>

lemma extends_by_new:
  assumes "extends_by st es st'"
  shows "new_events st st' = es" "list_all lines_ok (new_entries st st')"
    "display_off (pins st) \<Longrightarrow> list_all blank_ok (new_entries st st')"
    "display_off (pins st) \<Longrightarrow> display_off (pins st')"
  using assms unfolding extends_by_def new_events_def new_entries_def by auto

lemma extends_by_blanked:
  assumes "extends_by st es st'" "blanked st"
  shows "blanked st'"
  using assms unfolding extends_by_def blanked_def by auto

lemma nth_concat_uniform:
  assumes "\<And>i. i < n \<Longrightarrow> length (f i) = m" "i < n" "j < m"
  shows "concat (map f [0..<n]) ! (i * m + j) = f i ! j"
  using assms
proof (induction n)
  case 0
  then show ?case by simp
next
  case (Suc n)
  have len: "length (concat (map f [0..<n])) = n * m"
    using Suc.prems(1) by (induction n) simp_all
  show ?case
  proof (cases "i < n")
    case True
    then have "i * m + j < n * m"
      using Suc.prems(3) by (metis Suc_leI add.commute mult_Suc mult_le_mono1 nat_add_left_cancel_less order_less_le_trans)
    with True Suc show ?thesis by (simp add: nth_append len)
  next
    case False
    then have "i = n" using Suc.prems(2) by simp
    then show ?thesis by (simp add: nth_append len)
  qed
qed

lemma setRGB_calls_nth:
  assumes "s < 16" "p < 8" "x < 32"
  shows "setRGB_calls (frame_events buffer) ! ((s * 8 + p) * 32 + x) =
           (buffer ! (32 * s + x), buffer ! (32 * (s + 16) + x), of_nat p)"
proof -
  let ?col = "\<lambda>s p x. (buffer ! (32 * s + x), buffer ! (32 * (s + 16) + x), (of_nat p :: u8))"
  let ?pl = "\<lambda>s p. map (?col s p) [0..<32]"
  let ?row = "\<lambda>s. concat (map (?pl s) [0..<8])"
  have lrow: "length (?row s') = 8 * 32" for s'
    by (simp add: length_concat comp_def sum_list_triv)
  have "(s * 8 + p) * 32 + x = s * (8 * 32) + (p * 32 + x)" by simp
  then have "setRGB_calls (frame_events buffer) ! ((s * 8 + p) * 32 + x)
      = concat (map ?row [0..<16]) ! (s * (8 * 32) + (p * 32 + x))"
    by (simp only: setRGB_calls_frame)
  also have "\<dots> = ?row s ! (p * 32 + x)"
    using assms by (intro nth_concat_uniform lrow) simp_all
  also have "\<dots> = ?pl s p ! x"
    using assms by (intro nth_concat_uniform) simp_all
  also have "\<dots> = ?col s p x" using assms by simp
  finally show ?thesis .
qed

lemma setRGB_snaps_fst: "map fst (setRGB_snaps new) = setRGB_calls (map fst new)"
  unfolding setRGB_snaps_def setRGB_calls_def
  by (induction new) (simp_all add: comp_def)

lemma setRGB_snaps_lines:
  "list_all lines_ok new \<Longrightarrow>
   list_all (\<lambda>ag. rgb_lines (fst (fst ag)) (fst (snd (fst ag))) (unat (snd (snd (fst ag)))) (snd ag))
     (setRGB_snaps new)"
  unfolding setRGB_snaps_def
proof (induction new)
  case Nil
  then show ?case by simp
next
  case (Cons eg new)
  obtain e g where eg: "eg = (e, g)" by (cases eg)
  with Cons show ?case by (cases e) simp_all
qed

lemma blank_ok_drive:
  assumes "list_all blank_ok tr"
  shows "\<forall>(e, g) \<in> set tr.
           (setRow_arg e \<noteq> [] \<or> setRGB_arg e \<noteq> [] \<or> e = EvClkToggle \<longrightarrow> display_off g)
           \<and> display_off g = (\<not> holding e)"
proof -
  have "(setRow_arg e \<noteq> [] \<or> setRGB_arg e \<noteq> [] \<or> e = EvClkToggle \<longrightarrow> display_off g)
          \<and> display_off g = (\<not> holding e)"
    if "(e, g) \<in> set tr" for e g
  proof -
    from assms that have b: "display_off g = (\<not> holding e)"
      by (auto simp: list_all_iff blank_ok_def)
    then show ?thesis by (cases e) simp_all
  qed
  then show ?thesis by blast
qed

subsection \<open>The display enable line during a pass\<close>












lemma bit_0x50: "p < 8 \<Longrightarrow> bit (0x50 :: u32) p = (p = 4 \<or> p = 6)"
proof -
  assume "p < 8"
  then have "p \<in> {0, 1, 2, 3, 4, 5, 6, 7}" by auto
  then show ?thesis by (elim insertE emptyE) simp_all
qed

subsection \<open>The gamma table\<close>

lemma gamma_search_le: "gamma_search i n \<le> n"
  by (induction n) (simp_all add: le_SucI)

lemma gamma_le_mono: "gamma_le k i \<Longrightarrow> i \<le> j \<Longrightarrow> gamma_le k j"
proof -
  assume a: "gamma_le k i" "i \<le> j"
  have "(255::nat) ^ 5 * i ^ 8 \<le> 255 ^ 5 * j ^ 8"
    using a(2) by (intro mult_le_mono2 power_mono) simp_all
  with a(1) show ?thesis unfolding gamma_le_def by linarith
qed

lemma gamma_search_mono: "i \<le> j \<Longrightarrow> gamma_search i n \<le> gamma_search j n"
proof (induction n)
  case 0
  then show ?case by simp
next
  case (Suc n)
  then show ?case
    using gamma_le_mono [of "Suc n" i j] gamma_search_le [of i n]
    by (auto simp: le_SucI)
qed

lemma gamma_le_bound:
  assumes "gamma_le k i" "i \<le> 255"
  shows "k \<le> i"
proof (rule ccontr)
  assume "\<not> k \<le> i"
  then have k: "Suc i \<le> k" by simp
  have "255 ^ 5 * i ^ 8 = (255::nat) ^ 5 * i ^ 3 * i ^ 5"
    by (simp add: power_add [symmetric])
  also have "\<dots> \<le> 255 ^ 5 * 255 ^ 3 * i ^ 5"
    using assms(2) by (intro mult_le_mono1 mult_le_mono2 power_mono) simp_all
  also have "\<dots> \<le> 256 ^ 8 * i ^ 5" by simp
  also have "\<dots> < 256 ^ 8 * (Suc i) ^ 5"
    by (intro mult_strict_left_mono power_strict_mono) simp_all
  also have "\<dots> \<le> 256 ^ 8 * k ^ 5"
    using k by (intro mult_le_mono2 power_mono) simp_all
  finally have "255 ^ 5 * i ^ 8 < k ^ 5 * 256 ^ 8" by (simp add: mult.commute)
  with assms(1) show False unfolding gamma_le_def by simp
qed

lemma gamma_search_sound: "gamma_search i n = 0 \<or> gamma_le (gamma_search i n) i"
  by (induction n) simp_all

lemma gamma_search_bound: "i \<le> 255 \<Longrightarrow> gamma_search i n \<le> i"
  using gamma_search_sound [of i n] gamma_le_bound [of "gamma_search i n" i] by auto

lemma unat_gamma_entry: "unat (gamma_entry i) = gamma_search i 255"
  unfolding gamma_entry_def using gamma_search_le [of i 255]
  by (simp add: unat_of_nat)

lemma gamma_entry_mono: "i \<le> j \<Longrightarrow> gamma_entry i \<le> gamma_entry j"
  by (simp add: word_le_nat_alt unat_gamma_entry gamma_search_mono)

lemma gamma_entry_bound: "i \<le> 255 \<Longrightarrow> unat (gamma_entry i) \<le> i"
  by (simp add: unat_gamma_entry gamma_search_bound)

lemma gamma_search_0: "gamma_search 0 n = 0"
  by (induction n) (simp_all add: gamma_le_def)

lemma gamma_entry_0: "gamma_entry 0 = 0"
  by (simp add: gamma_entry_def gamma_search_0)

lemma gamma_search_numeral:
  "gamma_search i (numeral n) =
     (if gamma_le (numeral n) i then numeral n else gamma_search i (pred_numeral n))"
  by (simp add: numeral_eq_Suc)

lemma gamma_search_255: "gamma_search 255 255 = 253"
  by (simp add: gamma_search_numeral gamma_le_def)

lemma gamma_entry_255: "gamma_entry 255 = 253"
  by (simp add: gamma_entry_def gamma_search_255)

lemma gamma_le_real: "gamma_le k i \<longleftrightarrow> real k \<le> 255 * (real i / 256) powr (8 / 5)"
proof (cases "i = 0")
  case True
  then show ?thesis by (simp add: gamma_le_def)
next
  case False
  define x where "x = real i / 256"
  have x: "0 < x" using False by (simp add: x_def)
  have p5: "(x powr (8 / 5)) ^ 5 = x ^ 8"
  proof -
    have "(x powr (8 / 5)) ^ 5 = (x powr (8 / 5)) powr (real 5)"
      using x by (subst powr_realpow) simp_all
    also have "\<dots> = x powr 8" by (simp add: powr_powr)
    also have "\<dots> = x ^ 8" using x powr_realpow [of x 8] by simp
    finally show ?thesis .
  qed
  have "real k \<le> 255 * x powr (8 / 5) \<longleftrightarrow> real k / 255 \<le> x powr (8 / 5)"
    by (simp add: field_simps)
  also have "\<dots> \<longleftrightarrow> (real k / 255) ^ 5 \<le> (x powr (8 / 5)) ^ 5"
    by (subst power_mono_iff) simp_all
  also have "\<dots> \<longleftrightarrow> (real k / 255) ^ 5 \<le> x ^ 8" by (simp only: p5)
  also have "\<dots> \<longleftrightarrow> real (k ^ 5 * 256 ^ 8) \<le> real (255 ^ 5 * i ^ 8)"
    by (simp add: x_def field_simps power_divide)
  also have "\<dots> \<longleftrightarrow> gamma_le k i"
    unfolding gamma_le_def by (simp only: of_nat_le_iff)
  finally show ?thesis unfolding x_def by simp
qed

lemma gamma_search_greatest:
  "gamma_le (gamma_search i n) i \<and> (\<forall>k. gamma_search i n < k \<and> k \<le> n \<longrightarrow> \<not> gamma_le k i)"
proof (induction n)
  case 0
  then show ?case by (auto simp: gamma_le_def)
next
  case (Suc n)
  then show ?case using gamma_search_le [of i n] by (auto simp: le_Suc_eq)
qed

lemma gamma_search_floor:
  assumes "i < 256"
  shows "int (gamma_search i 255) = \<lfloor>255 * (real i / 256) powr 1.6\<rfloor>"
proof -
  let ?k = "gamma_search i 255"
  let ?v = "255 * (real i / 256) powr (8 / 5)"
  have lo: "real ?k \<le> ?v"
    using gamma_search_greatest [of i 255] by (simp add: gamma_le_real)
  have "(real i / 256) powr (8 / 5) < 1"
  proof (cases "i = 0")
    case True
    then show ?thesis by simp
  next
    case False
    then have "(real i / 256) powr (8 / 5) < 1 powr (8 / 5)"
      using assms by (intro powr_less_mono2) simp_all
    then show ?thesis by simp
  qed
  then have v: "?v < 255" by simp
  have hi: "?v < real ?k + 1"
  proof (cases "?k < 255")
    case True
    then have "\<not> gamma_le (Suc ?k) i"
      using gamma_search_greatest [of i 255] by simp
    then show ?thesis by (simp add: gamma_le_real)
  next
    case False
    then show ?thesis using v by simp
  qed
  have "\<lfloor>?v\<rfloor> = int ?k"
    using lo hi by (intro floor_unique) simp_all
  moreover have "(1.6 :: real) = 8 / 5" by simp
  ultimately show ?thesis by simp
qed

lemma uint_gamma_entry:
  assumes "i < 256"
  shows "uint (gamma_entry i) = \<lfloor>255 * (real i / 256) powr 1.6\<rfloor>"
proof -
  have "uint (gamma_entry i) = int (unat (gamma_entry i))" by (rule uint_nat)
  then show ?thesis by (simp only: unat_gamma_entry gamma_search_floor [OF assms])
qed

lemma gamma_loop_run:
  assumes "length table = 256"
  shows "i \<le> 256 \<Longrightarrow> gamma_loop (int i) table = Some (take i table @ map gamma_entry [i..<256])"
  using assms
proof (induction "256 - i" arbitrary: i table)
  case 0
  then show ?case by (subst gamma_loop.simps) simp
next
  case (Suc n)
  then have i: "i < 256" by simp
  have "n = 256 - Suc i" "Suc i \<le> 256" "length (table[i := gamma_entry i]) = 256"
    using Suc i by simp_all
  from Suc(1) [OF this]
  have "gamma_loop (int (Suc i)) (table[i := gamma_entry i])
          = Some (take (Suc i) (table[i := gamma_entry i]) @ map gamma_entry [Suc i..<256])" .
  moreover have "take (Suc i) (table[i := gamma_entry i]) = take i table @ [gamma_entry i]"
    using i Suc.prems by (simp add: take_Suc_conv_app_nth)
  ultimately show ?case
    using i Suc.prems
    by (subst gamma_loop.simps) (simp add: array_set_def upt_conv_Cons add.commute)
qed

lemma build_gammaTable_eq: "build_gammaTable = Some (map gamma_entry [0..<256])"
  using gamma_loop_run [of "replicate 256 0" 0] by (simp add: build_gammaTable_def)

subsection \<open>randomizeFramebuffer\<close>

lemma c_rem_nonneg: "0 \<le> a \<Longrightarrow> 0 < b \<Longrightarrow> c_rem a b = Some (a mod b)"
  by (cases "a = 0") (simp_all add: c_rem_def minus_mult_div_eq_mod)

lemma ceiling_of_bounds: "1 \<le> ceiling_of m \<and> ceiling_of m \<le> 255"
proof -
  have "uint m < 256" using uint_bounded [of m] by simp
  moreover have "0 \<le> uint m" by simp
  then have "uint m = 0 \<or> 1 \<le> uint m" by linarith
  ultimately show ?thesis unfolding ceiling_of_def by auto
qed

lemma gamma_rand_Some:
  assumes "0 < m" "m \<le> int (length table)"
  shows "gamma_rand table rnd m n = Some (table ! (rnd n mod nat m))"
proof -
  have "c_rem (int (rnd n)) m = Some (int (rnd n) mod m)"
    using assms(1) by (intro c_rem_nonneg) simp_all
  moreover have "int (rnd n) mod m = int (rnd n mod nat m)"
    using assms(1) by (simp add: zmod_int)
  moreover have "rnd n mod nat m < length table"
    using assms by (metis mod_less_divisor nat_less_iff nat_int order_less_le_trans zero_less_nat_eq
        nat_le_iff)
  ultimately show ?thesis
    by (simp add: gamma_rand_def array_get_def)
qed

lemma channel_pack:
  "channel 0 (pack c0 c1 c2) = c0" "channel 1 (pack c0 c1 c2) = c1" "channel 2 (pack c0 c1 c2) = c2"
  unfolding channel_def pack_def
  by (rule bit_word_eqI; auto simp: bit_simps dest: bit_imp_le_length)+

lemma fill_loop_run:
  assumes "0 < m" "m \<le> int (length table)"
  shows "i \<le> 1024 \<Longrightarrow> length buffer = 1024 \<Longrightarrow>
    \<exists>buffer'. fill_loop table rnd m (int i) (buffer, n) = Some (buffer', n + 3 * (1024 - i))
       \<and> length buffer' = 1024
       \<and> (\<forall>j<i. buffer' ! j = buffer ! j)
       \<and> (\<forall>j. i \<le> j \<and> j < 1024 \<longrightarrow>
             buffer' ! j = pack (table ! (rnd (n + 3 * (j - i)) mod nat m))
                                (table ! (rnd (n + 3 * (j - i) + 1) mod nat m))
                                (table ! (rnd (n + 3 * (j - i) + 2) mod nat m)))"
proof (induction "1024 - i" arbitrary: i buffer n)
  case 0
  then have "i = 1024" by simp
  then have "fill_loop table rnd m (int i) (buffer, n) = Some (buffer, n + 3 * (1024 - i))"
    by (subst fill_loop.simps) (simp add: MATRIX_SIZE_def MATRIX_WIDTH_def MATRIX_HEIGHT_def)
  moreover have "\<not> (i \<le> j \<and> j < 1024)" for j using \<open>i = 1024\<close> by simp
  ultimately show ?case using 0(3) by blast
next
  case (Suc k)
  then have i: "i < 1024" by simp
  let ?px = "pack (table ! (rnd n mod nat m)) (table ! (rnd (n + 1) mod nat m))
                  (table ! (rnd (n + 2) mod nat m))"
  let ?b1 = "buffer[i := ?px]"
  have "k = 1024 - Suc i" "Suc i \<le> 1024" "length ?b1 = 1024"
    using Suc i by simp_all
  from Suc(1) [OF this, of "n + 3"]
  obtain buffer' where b':
    "fill_loop table rnd m (int (Suc i)) (?b1, n + 3) = Some (buffer', n + 3 + 3 * (1024 - Suc i))"
    "length buffer' = 1024" "\<forall>j<Suc i. buffer' ! j = ?b1 ! j"
    "\<forall>j. Suc i \<le> j \<and> j < 1024 \<longrightarrow>
             buffer' ! j = pack (table ! (rnd (n + 3 + 3 * (j - Suc i)) mod nat m))
                                (table ! (rnd (n + 3 + 3 * (j - Suc i) + 1) mod nat m))
                                (table ! (rnd (n + 3 + 3 * (j - Suc i) + 2) mod nat m))"
    by blast
  have cnt: "n + 3 + 3 * (1024 - Suc i) = n + 3 * (1024 - i)" using i by simp
  have run: "fill_loop table rnd m (int i) (buffer, n) = Some (buffer', n + 3 * (1024 - i))"
    using i Suc.prems b'(1) cnt
    by (subst fill_loop.simps)
       (simp add: MATRIX_SIZE_def MATRIX_WIDTH_def MATRIX_HEIGHT_def gamma_rand_Some [OF assms]
          array_set_def add.commute)
  have low: "\<forall>j<i. buffer' ! j = buffer ! j"
    using b'(3) by simp
  have high: "buffer' ! j = pack (table ! (rnd (n + 3 * (j - i)) mod nat m))
                                (table ! (rnd (n + 3 * (j - i) + 1) mod nat m))
                                (table ! (rnd (n + 3 * (j - i) + 2) mod nat m))"
    if j: "i \<le> j" "j < 1024" for j
  proof (cases "j = i")
    case True
    then show ?thesis using b'(3) Suc.prems i by simp
  next
    case False
    then have "Suc i \<le> j" using j by simp
    have e: "n + 3 + 3 * (j - Suc i) = n + 3 * (j - i)" using \<open>Suc i \<le> j\<close> by simp
    from b'(4) \<open>Suc i \<le> j\<close> j(2)
    have "buffer' ! j = pack (table ! (rnd (n + 3 + 3 * (j - Suc i)) mod nat m))
                                (table ! (rnd (n + 3 + 3 * (j - Suc i) + 1) mod nat m))
                                (table ! (rnd (n + 3 + 3 * (j - Suc i) + 2) mod nat m))"
      by blast
    then show ?thesis unfolding e .
  qed
  from run b'(2) low high show ?case by blast
qed

lemma randomize_run:
  assumes "length table = 256" "length buffer = 1024"
  shows "\<exists>buffer'. randomizeFramebuffer table rnd buffer g
             = Some (buffer', \<lparr>counter = counter g + 1, rand_calls = rand_calls g + 3072\<rparr>)
       \<and> length buffer' = 1024
       \<and> (\<forall>j<1024. buffer' ! j =
             pack (table ! (rnd (rand_calls g + 3 * j) mod nat (ceiling_of (table ! unat (counter g + 1)))))
                  (table ! (rnd (rand_calls g + 3 * j + 1) mod nat (ceiling_of (table ! unat (counter g + 1)))))
                  (table ! (rnd (rand_calls g + 3 * j + 2) mod nat (ceiling_of (table ! unat (counter g + 1))))))"
proof -
  let ?c = "counter g + 1"
  let ?m = "ceiling_of (table ! unat ?c)"
  have "uint ?c < 256" using uint_bounded [of ?c] by simp
  then have get: "array_get table (uint ?c) = Some (table ! unat ?c)"
    using assms(1) by (simp add: array_get_def)
  have m: "0 < ?m" "?m \<le> int (length table)"
    using ceiling_of_bounds [of "table ! unat ?c"] assms(1) by simp_all
  from fill_loop_run [OF m, of 0 buffer rnd "rand_calls g"] assms(2)
  obtain buffer' where b':
    "fill_loop table rnd ?m 0 (buffer, rand_calls g) = Some (buffer', rand_calls g + 3 * (1024 - 0))"
    "length buffer' = 1024"
    "\<forall>j. 0 \<le> j \<and> j < 1024 \<longrightarrow>
             buffer' ! j = pack (table ! (rnd (rand_calls g + 3 * (j - 0)) mod nat ?m))
                                (table ! (rnd (rand_calls g + 3 * (j - 0) + 1) mod nat ?m))
                                (table ! (rnd (rand_calls g + 3 * (j - 0) + 2) mod nat ?m))"
    by auto
  have "randomizeFramebuffer table rnd buffer g
          = Some (buffer', \<lparr>counter = ?c, rand_calls = rand_calls g + 3072\<rparr>)"
    using get b'(1) by (simp add: randomizeFramebuffer_def Let_def)
  with b'(2,3) show ?thesis by simp
qed

subsection \<open>The test pattern\<close>

lemma nonzero_channels_vals:
  "nonzero_channels 0x50 = 1" "nonzero_channels 0x5000 = 1" "nonzero_channels 0x500000 = 1"
  "nonzero_channels 0x505000 = 2"
  by (simp_all add: nonzero_channels_def channel_def drop_bit_eq_div)

lemma test_pattern_eq:
  "test_pattern = Some ((replicate 1024 0)[0 := 0x50, 31 := 0x5000, 992 := 0x500000, 1023 := 0x505000])"
  by (simp add: test_pattern_def array_set_def MATRIX_SIZE_def MATRIX_WIDTH_def MATRIX_HEIGHT_def)

subsection \<open>main\<close>

lemma wait_UartReady_Some: "ready (t + d) \<Longrightarrow> \<exists>u. wait_UartReady ready t = Some u"
proof (induction d arbitrary: t)
  case 0
  then show ?case by (subst wait_UartReady.simps) simp
next
  case (Suc d)
  from Suc.IH [of "Suc t"] Suc.prems
  obtain u where "wait_UartReady ready (Suc t) = Some u" by auto
  then show ?case by (subst wait_UartReady.simps) simp
qed

lemma test_frames_run:
  assumes "length buffer = 1024"
  shows "i \<le> 500 \<Longrightarrow> blanked st \<Longrightarrow>
         \<exists>st'. test_frames (int i) buffer st = Some st' \<and> blanked st'"
proof (induction "500 - i" arbitrary: i st)
  case 0
  then show ?case by (subst test_frames.simps) simp
next
  case (Suc n)
  then have i: "i < 500" by simp
  from displayBuffer_run [OF assms, of st]
  obtain st1 where st1: "displayBuffer buffer st = Some st1" "extends_by st (frame_events buffer) st1"
    by blast
  have off: "blanked st1"
    using extends_by_blanked [OF st1(2) Suc.prems(2)] .
  have "n = 500 - Suc i" "Suc i \<le> 500" using Suc(2) i by simp_all
  from Suc(1) [OF this off]
  obtain st' where "test_frames (int (Suc i)) buffer st1 = Some st'" "blanked st'"
    by blast
  then show ?case
    using i st1(1) by (subst test_frames.simps) (simp add: add.commute)
qed

lemma startup_run:
  "\<exists>st0. startup g0 = Some st0 \<and> frame st0 = 0 \<and> length (framebuffer st0) = 1024
      \<and> length (gammaTable st0) = 256 \<and> blanked (io st0)
      \<and> generator st0 = \<lparr>counter = 0, rand_calls = 0\<rparr>
      \<and> calls st0 = [CallTransmit ''RGB-matrix started'', CallReceive] @ replicate 500 CallDisplayBuffer"
proof -
  let ?fb = "(replicate 1024 0)[0 := 0x50, 31 := 0x5000, 992 := 0x500000, 1023 := 0x505000 :: u32]"
  let ?st0 = "DISP_OFF \<lparr>pins = g0, trace = []\<rparr>"
  have "length ?fb = 1024" by simp
  moreover have "blanked ?st0"
    by (simp add: DISP_OFF_def emit_def display_off_def BSRRL_def blanked_def blank_ok_def)
  ultimately obtain st1 where st1: "test_frames 0 ?fb ?st0 = Some st1" "blanked st1"
    using test_frames_run [of ?fb 0 ?st0] by auto
  then show ?thesis
    unfolding startup_def build_gammaTable_eq test_pattern_eq by (simp add: Let_def)
qed

lemma count_list_replicate_other: "x \<noteq> y \<Longrightarrow> count_list (replicate n x) y = 0"
  by (induction n) simp_all

lemma startup_calls:
  "\<exists>st0. startup g0 = Some st0 \<and> frame st0 = 0 \<and> length (framebuffer st0) = 1024
      \<and> length (gammaTable st0) = 256
      \<and> count_list (calls st0) CallRandomize = 0
      \<and> count_list (calls st0) (CallTransmit (take 17 uartAliveMsg)) = 0"
proof -
  from startup_run [of g0] obtain st0 where st0: "startup g0 = Some st0" "frame st0 = 0"
    "length (framebuffer st0) = 1024" "length (gammaTable st0) = 256"
    "calls st0 = [CallTransmit ''RGB-matrix started'', CallReceive] @ replicate 500 CallDisplayBuffer"
    by blast
  have "count_list (calls st0) CallRandomize = 0"
    "count_list (calls st0) (CallTransmit (take 17 uartAliveMsg)) = 0"
    unfolding st0(5) by (simp_all add: count_list_replicate_other uartAliveMsg_def)
  with st0 show ?thesis by blast
qed

lemma c_rem_zero_iff: "0 \<le> a \<Longrightarrow> 0 < b \<Longrightarrow> (c_rem a b = Some 0) = (a mod b = 0)"
  by (simp add: c_rem_nonneg)

lemma main_iter_run:
  assumes "length (framebuffer st) = 1024" "length (gammaTable st) = 256"
    "0 \<le> frame st" "frame st < 2147483647" "\<forall>t. \<exists>d. ready (t + d)"
  shows "\<exists>st'. main_iter ready rnd st = Some st' \<and> frame st' = frame st + 1
     \<and> length (framebuffer st') = 1024 \<and> length (gammaTable st') = 256
     \<and> calls st' = calls st @ [CallDisplayBuffer]
          @ (if (frame st + 1) mod 5 = 0 then [CallRandomize] else [])
          @ (if (frame st + 1) mod 200 = 0 then [CallTransmit (take 17 uartAliveMsg)] else [])
     \<and> (blanked (io st) \<longrightarrow> blanked (io st'))"
proof -
  from displayBuffer_run [OF assms(1), of "io st"]
  obtain io1 where io1: "displayBuffer (framebuffer st) (io st) = Some io1"
    "extends_by (io st) (frame_events (framebuffer st)) io1" by blast
  have bl: "blanked (io st) \<longrightarrow> blanked io1"
    using extends_by_blanked [OF io1(2)] by blast
  let ?st1 = "st\<lparr>io := io1, calls := calls st @ [CallDisplayBuffer]\<rparr>"
  have d: "main_display st = Some ?st1" using io1(1) by (simp add: main_display_def)
  let ?f = "frame st + 1"
  have f: "0 \<le> ?f" "frame ?st1 \<noteq> 2147483647" using assms(3,4) by simp_all
  have "\<exists>st2. main_randomize rnd ?st1 = Some st2 \<and> frame st2 = ?f
      \<and> length (framebuffer st2) = 1024 \<and> length (gammaTable st2) = 256
      \<and> io st2 = io1
      \<and> calls st2 = calls st @ [CallDisplayBuffer] @ (if ?f mod 5 = 0 then [CallRandomize] else [])"
  proof (cases "?f mod 5 = 0")
    case True
    from randomize_run [OF assms(2,1), of rnd "generator st"]
    obtain fb where fb: "randomizeFramebuffer (gammaTable st) rnd (framebuffer st) (generator st)
        = Some (fb, \<lparr>counter = counter (generator st) + 1, rand_calls = rand_calls (generator st) + 3072\<rparr>)"
      "length fb = 1024" by blast
    show ?thesis
      using True f fb assms(2) by (simp add: main_randomize_def Let_def c_rem_zero_iff)
  next
    case False
    then show ?thesis
      using f assms(1,2) by (simp add: main_randomize_def Let_def c_rem_zero_iff)
  qed
  then obtain st2 where st2: "main_randomize rnd ?st1 = Some st2" "frame st2 = ?f"
      "length (framebuffer st2) = 1024" "length (gammaTable st2) = 256"
      "calls st2 = calls st @ [CallDisplayBuffer] @ (if ?f mod 5 = 0 then [CallRandomize] else [])"
      "io st2 = io1"
    by blast
  have "\<exists>st3. main_heartbeat ready st2 = Some st3 \<and> frame st3 = ?f
      \<and> length (framebuffer st3) = 1024 \<and> length (gammaTable st3) = 256
      \<and> calls st3 = calls st2 @ (if ?f mod 200 = 0 then [CallTransmit (take 17 uartAliveMsg)] else [])
      \<and> io st3 = io st2"
  proof (cases "?f mod 200 = 0")
    case True
    from assms(5) obtain dd where "ready (uart_reads st2 + dd)" by blast
    from wait_UartReady_Some [of ready "uart_reads st2" dd, OF this]
    obtain u where "wait_UartReady ready (uart_reads st2) = Some u" by blast
    then show ?thesis
      using True f(1) st2(2,3,4) by (simp add: main_heartbeat_def c_rem_zero_iff)
  next
    case False
    then show ?thesis
      using f(1) st2(2,3,4) by (simp add: main_heartbeat_def c_rem_zero_iff)
  qed
  then obtain st3 where st3: "main_heartbeat ready st2 = Some st3" "frame st3 = ?f"
      "length (framebuffer st3) = 1024" "length (gammaTable st3) = 256"
      "calls st3 = calls st2 @ (if ?f mod 200 = 0 then [CallTransmit (take 17 uartAliveMsg)] else [])"
      "io st3 = io st2"
    by blast
  have "main_iter ready rnd st = Some st3"
    using d st2(1) st3(1) by (simp add: main_iter_def)
  with st3 st2(5,6) bl show ?thesis by simp
qed

lemma main_loop_snoc:
  "main_loop ready rnd (Suc n) st =
     (case main_loop ready rnd n st of None \<Rightarrow> None | Some st1 \<Rightarrow> main_iter ready rnd st1)"
proof (induction n arbitrary: st)
  case 0
  then show ?case by (simp split: option.splits)
next
  case (Suc n)
  show ?case
  proof (cases "main_iter ready rnd st")
    case None
    then show ?thesis by simp
  next
    case (Some st1)
    have "main_loop ready rnd (Suc (Suc n)) st = main_loop ready rnd (Suc n) st1"
      using Some by simp
    also have "\<dots> = (case main_loop ready rnd n st1 of None \<Rightarrow> None | Some st2 \<Rightarrow> main_iter ready rnd st2)"
      by (rule Suc.IH)
    also have "main_loop ready rnd n st1 = main_loop ready rnd (Suc n) st"
      using Some by simp
    finally show ?thesis .
  qed
qed

lemma div_step: "(Suc n) div k = n div k + (if Suc n mod k = 0 then 1 else 0)"
  by (simp add: div_Suc)

lemma main_loop_run:
  assumes "frame st = 0" "length (framebuffer st) = 1024" "length (gammaTable st) = 256"
    "\<forall>t. \<exists>d. ready (t + d)"
  shows "n \<le> 2147483647 \<Longrightarrow>
     \<exists>st'. main_loop ready rnd n st = Some st' \<and> frame st' = int n
       \<and> length (framebuffer st') = 1024 \<and> length (gammaTable st') = 256
       \<and> count_list (calls st') CallDisplayBuffer = count_list (calls st) CallDisplayBuffer + n
       \<and> count_list (calls st') CallRandomize = count_list (calls st) CallRandomize + n div 5
       \<and> count_list (calls st') (CallTransmit (take 17 uartAliveMsg))
            = count_list (calls st) (CallTransmit (take 17 uartAliveMsg)) + n div 200
       \<and> (blanked (io st) \<longrightarrow> blanked (io st'))"
proof (induction n)
  case 0
  then show ?case using assms by simp
next
  case (Suc n)
  then obtain st1 where st1: "main_loop ready rnd n st = Some st1" "frame st1 = int n"
    "length (framebuffer st1) = 1024" "length (gammaTable st1) = 256"
    "count_list (calls st1) CallDisplayBuffer = count_list (calls st) CallDisplayBuffer + n"
    "count_list (calls st1) CallRandomize = count_list (calls st) CallRandomize + n div 5"
    "count_list (calls st1) (CallTransmit (take 17 uartAliveMsg))
            = count_list (calls st) (CallTransmit (take 17 uartAliveMsg)) + n div 200"
    "blanked (io st) \<longrightarrow> blanked (io st1)"
    by auto
  have "0 \<le> frame st1" "frame st1 < 2147483647" using st1(2) Suc.prems by simp_all
  from main_iter_run [OF st1(3,4) this assms(4), of rnd]
  obtain st' where st': "main_iter ready rnd st1 = Some st'" "frame st' = frame st1 + 1"
    "length (framebuffer st') = 1024" "length (gammaTable st') = 256"
    "calls st' = calls st1 @ [CallDisplayBuffer]
          @ (if (frame st1 + 1) mod 5 = 0 then [CallRandomize] else [])
          @ (if (frame st1 + 1) mod 200 = 0 then [CallTransmit (take 17 uartAliveMsg)] else [])"
    "blanked (io st1) \<longrightarrow> blanked (io st')"
    by blast
  have m5: "((frame st1 + 1) mod 5 = 0) = (Suc n mod 5 = 0)"
    and m200: "((frame st1 + 1) mod 200 = 0) = (Suc n mod 200 = 0)"
    unfolding st1(2) by presburger+
  have run: "main_loop ready rnd (Suc n) st = Some st'"
    using st1(1) st'(1) by (simp only: main_loop_snoc option.case)
  have c1: "count_list (calls st') CallDisplayBuffer = count_list (calls st) CallDisplayBuffer + Suc n"
    unfolding st'(5) using st1(5) by simp
  have c2: "count_list (calls st') CallRandomize = count_list (calls st) CallRandomize + Suc n div 5"
    unfolding st'(5) m5 m200 using st1(6) by (simp add: div_Suc)
  have c3: "count_list (calls st') (CallTransmit (take 17 uartAliveMsg))
            = count_list (calls st) (CallTransmit (take 17 uartAliveMsg)) + Suc n div 200"
    unfolding st'(5) m5 m200 using st1(7) by (simp add: div_Suc)
  from run st'(2,3,4,6) st1(2,8) c1 c2 c3 show ?case by simp
qed

subsection \<open>The failures of the model\<close>

text \<open>The failures are reachable: a buffer or table that is too short, or a plane whose
  shift is undefined, makes the function fail.\<close>

lemma displayBuffer_short_buffer: "displayBuffer [] st = None"
proof -
  have "column_loop [] 0 (MATRIX_WIDTH * (0 + scan)) 0 0 st1 = None" for st1
    by (subst column_loop.simps) (simp add: MATRIX_WIDTH_def array_get_def)
  then have "plane_loop [] 0 (MATRIX_WIDTH * (0 + scan)) 0 st1 = None" for st1
    by (subst plane_loop.simps) simp
  then show ?thesis
    unfolding displayBuffer_def by (subst row_loop.simps) (simp add: scan_def MATRIX_HEIGHT_def Let_def)
qed

lemma randomizeFramebuffer_short_table: "randomizeFramebuffer [] rnd buffer g = None"
  by (simp add: randomizeFramebuffer_def array_get_def Let_def)

lemma setRGB_large_plane: "15 \<le> unat plane \<Longrightarrow> setRGB rgb1 rgb2 plane st = None"
  by (simp add: setRGB_def)

section \<open>The claims\<close>

text \<open>
  C3: the bit-plane weight table \<open>waits\<close> has exactly 8 entries, each entry is exactly double
  the one before it, and so the hold durations of planes 0 to 7 are the first entry times
  1, 2, 4, 8, 16, 32, 64, 128.
\<close>

theorem waits_doubling:
  "length waits = 8
   \<and> tl waits = map (\<lambda>w. 2 * w) (butlast waits)
   \<and> waits = map (\<lambda>k. 2 ^ k * hd waits) [0..<8]
   \<and> map (\<lambda>w. w div hd waits) waits = [1, 2, 4, 8, 16, 32, 64, 128]"
  by (simp add: waits_def upt_rec)

text \<open>
  C5: for every row-pair index from 0 to 15, \<open>setRow\<close> drives the address lines A, B, C, D
  (pins 5, 6, 8, 9 of port B) to the binary digits 0, 1, 2, 3 of the index, and reading the
  four lines back as a number gives the index.
\<close>

theorem setRow_address:
  assumes "0 \<le> row" "row < 16"
  shows "pins (setRow row st) (GPIOB 5) = bit row 0 \<and> pins (setRow row st) (GPIOB 6) = bit row 1
       \<and> pins (setRow row st) (GPIOB 8) = bit row 2 \<and> pins (setRow row st) (GPIOB 9) = bit row 3
       \<and> decode_row (pins (setRow row st)) = row"
proof -
  have lines: "pins (setRow row st) (GPIOB 5) = bit row 0" "pins (setRow row st) (GPIOB 6) = bit row 1"
    "pins (setRow row st) (GPIOB 8) = bit row 2" "pins (setRow row st) (GPIOB 9) = bit row 3"
    by (simp_all add: setRow_pins and_pow2_bit_int)
  have "row \<in> {0,1,2,3,4,5,6,7,8,9,10,11,12,13,14,15}" using assms by simp arith
  then have "decode_row (pins (setRow row st)) = row"
    unfolding decode_row_def lines by (elim insertE emptyE) simp_all
  with lines show ?thesis by simp
qed

theorem setRow_address_witness:
  "(0::int) \<le> 11 \<and> (11::int) < 16
   \<and> pins (setRow 11 \<lparr>pins = (\<lambda>p. False), trace = []\<rparr>) (GPIOB 5)
   \<and> pins (setRow 11 \<lparr>pins = (\<lambda>p. False), trace = []\<rparr>) (GPIOB 6)
   \<and> \<not> pins (setRow 11 \<lparr>pins = (\<lambda>p. False), trace = []\<rparr>) (GPIOB 8)
   \<and> pins (setRow 11 \<lparr>pins = (\<lambda>p. False), trace = []\<rparr>) (GPIOB 9)
   \<and> decode_row (pins (setRow 11 \<lparr>pins = (\<lambda>p. False), trace = []\<rparr>)) = 11"
  using setRow_address [of 11 "\<lparr>pins = (\<lambda>p. False), trace = []\<rparr>"] by simp



text \<open>
  C9: \<open>DISP_OFF\<close>, which \<open>main\<close> executes before the first scan, disables the display; and a
  scan that starts with the display disabled ends with it disabled, and in its trace the
  display is disabled at every call of \<open>setRow\<close> and of \<open>setRGB\<close> and at every clock pulse:
  it is enabled only from \<open>DISP_ON\<close> through the \<open>nop\<close>s of a hold, which \<open>DISP_OFF\<close> ends
  before the next address or column is driven. So it is for the program as a whole: in the
  trace of \<open>main\<close> from its start through the 500 test frames and any number \<open>n\<close> of
  iterations of \<open>while(1)\<close>, the display is disabled at every such event.
\<close>

theorem display_off_while_driving:
  assumes "length buffer = 1024" "display_off (pins st)"
    "\<forall>t. \<exists>d. ready (t + d)" "n \<le> 2147483647"
  shows "display_off (pins (DISP_OFF st0))
     \<and> (\<exists>st'. displayBuffer buffer st = Some st' \<and> display_off (pins st')
          \<and> (\<forall>(e, g) \<in> set (new_entries st st').
                (setRow_arg e \<noteq> [] \<or> setRGB_arg e \<noteq> [] \<or> e = EvClkToggle \<longrightarrow> display_off g)
                \<and> display_off g = (\<not> holding e)))
     \<and> (\<exists>st1 st2. startup g0 = Some st1 \<and> main_loop ready rnd n st1 = Some st2
          \<and> display_off (pins (io st2))
          \<and> (\<forall>(e, g) \<in> set (trace (io st2)).
                (setRow_arg e \<noteq> [] \<or> setRGB_arg e \<noteq> [] \<or> e = EvClkToggle \<longrightarrow> display_off g)
                \<and> display_off g = (\<not> holding e)))"
proof -
  from displayBuffer_run [OF assms(1), of st]
  obtain st' where st': "displayBuffer buffer st = Some st'" "extends_by st (frame_events buffer) st'"
    by blast
  have a: "list_all blank_ok (new_entries st st')" "display_off (pins st')"
    using extends_by_new(3,4) [OF st'(2) assms(2)] .
  have scan: "\<exists>st'. displayBuffer buffer st = Some st' \<and> display_off (pins st')
          \<and> (\<forall>(e, g) \<in> set (new_entries st st').
                (setRow_arg e \<noteq> [] \<or> setRGB_arg e \<noteq> [] \<or> e = EvClkToggle \<longrightarrow> display_off g)
                \<and> display_off g = (\<not> holding e))"
    using st'(1) a(2) blank_ok_drive [OF a(1)] by blast
  have off: "display_off (pins (DISP_OFF st0))"
    by (simp add: DISP_OFF_def emit_def display_off_def BSRRL_def)
  from startup_run [of g0]
  obtain st1 where st1: "startup g0 = Some st1" "frame st1 = 0" "length (framebuffer st1) = 1024"
    "length (gammaTable st1) = 256" "blanked (io st1)"
    by blast
  from main_loop_run [OF st1(2,3,4) assms(3,4), of rnd] st1(5)
  obtain st2 where st2: "main_loop ready rnd n st1 = Some st2" "blanked (io st2)"
    by blast
  have "display_off (pins (io st2))" "list_all blank_ok (trace (io st2))"
    using st2(2) by (simp_all add: blanked_def)
  then have prog: "\<exists>st1 st2. startup g0 = Some st1 \<and> main_loop ready rnd n st1 = Some st2
          \<and> display_off (pins (io st2))
          \<and> (\<forall>(e, g) \<in> set (trace (io st2)).
                (setRow_arg e \<noteq> [] \<or> setRGB_arg e \<noteq> [] \<or> e = EvClkToggle \<longrightarrow> display_off g)
                \<and> display_off g = (\<not> holding e))"
    using st1(1) st2(1) blank_ok_drive [of "trace (io st2)"] by blast
  from off scan prog show ?thesis by blast
qed

theorem display_off_while_driving_witness:
  "length (replicate 1024 (0 :: u32)) = 1024
   \<and> display_off (pins (DISP_OFF \<lparr>pins = (\<lambda>p. False), trace = []\<rparr>))
   \<and> (3 :: nat) \<le> 2147483647
   \<and> (\<exists>st'. displayBuffer (replicate 1024 0) (DISP_OFF \<lparr>pins = (\<lambda>p. False), trace = []\<rparr>) = Some st'
        \<and> display_off (pins st'))
   \<and> (\<exists>st1 st2. startup (\<lambda>p. False) = Some st1 \<and> main_loop (\<lambda>t. True) (\<lambda>n. n) 3 st1 = Some st2
        \<and> display_off (pins (io st2)))"
proof -
  have len: "length (replicate 1024 (0 :: u32)) = 1024" by simp
  have off: "display_off (pins (DISP_OFF \<lparr>pins = (\<lambda>p. False), trace = []\<rparr>))"
    by (simp add: DISP_OFF_def emit_def display_off_def BSRRL_def)
  have env: "\<forall>t. \<exists>d. (\<lambda>t. True) (t + d)" by simp
  have n: "(3 :: nat) \<le> 2147483647" by simp
  from display_off_while_driving [OF len off env n, of _ "\<lambda>p. False" "\<lambda>n. n"] len off n
  show ?thesis by blast
qed

text \<open>
  C2: for all pixel values \<open>rgb1\<close>, \<open>rgb2\<close> and every plane from 0 to 7, \<open>setRGB\<close> drives the
  six colour lines (pins 5 to 10 of port A) to the bits \<open>plane\<close>, \<open>plane + 8\<close>, \<open>plane + 16\<close>
  of \<open>rgb1\<close> and of \<open>rgb2\<close>. And with pixel (0,0) set to \<open>0x50\<close> and every other pixel zero,
  the call of \<open>setRGB\<close> for column 0 of row pair 0 at plane \<open>p\<close> (call number \<open>32 * p\<close> of the
  pass) leaves the line r1 high exactly for the planes 4 and 6.
\<close>

theorem setRGB_bit_planes:
  assumes "unat plane \<le> 7"
  shows "(\<exists>st'. setRGB rgb1 rgb2 plane st = Some st'
          \<and> trace st' = trace st @ [(EvSetRGB rgb1 rgb2 plane, pins st')]
          \<and> pins st' (GPIOA 5) = bit rgb1 (unat plane)
          \<and> pins st' (GPIOA 6) = bit rgb1 (unat plane + 8)
          \<and> pins st' (GPIOA 7) = bit rgb1 (unat plane + 16)
          \<and> pins st' (GPIOA 8) = bit rgb2 (unat plane)
          \<and> pins st' (GPIOA 9) = bit rgb2 (unat plane + 8)
          \<and> pins st' (GPIOA 10) = bit rgb2 (unat plane + 16))
     \<and> (\<exists>st'. displayBuffer ((replicate 1024 0)[0 := 0x50]) st = Some st'
          \<and> (\<forall>p<8. fst (setRGB_snaps (new_entries st st') ! (32 * p)) = (0x50, 0, of_nat p)
                 \<and> snd (setRGB_snaps (new_entries st st') ! (32 * p)) (GPIOA 5) = (p = 4 \<or> p = 6)))"
proof -
  let ?b = "(replicate 1024 0)[0 := 0x50 :: u32]"
  have lt: "unat plane < 15" using assms by simp
  have one: "\<exists>st'. setRGB rgb1 rgb2 plane st = Some st'
          \<and> trace st' = trace st @ [(EvSetRGB rgb1 rgb2 plane, pins st')]
          \<and> pins st' (GPIOA 5) = bit rgb1 (unat plane)
          \<and> pins st' (GPIOA 6) = bit rgb1 (unat plane + 8)
          \<and> pins st' (GPIOA 7) = bit rgb1 (unat plane + 16)
          \<and> pins st' (GPIOA 8) = bit rgb2 (unat plane)
          \<and> pins st' (GPIOA 9) = bit rgb2 (unat plane + 8)
          \<and> pins st' (GPIOA 10) = bit rgb2 (unat plane + 16)"
    using setRGB_Some [OF lt, of rgb1 rgb2 st] unfolding rgb_lines_def by blast
  have len: "length ?b = 1024" by simp
  from displayBuffer_run [OF len, of st]
  obtain st' where st': "displayBuffer ?b st = Some st'" "extends_by st (frame_events ?b) st'"
    by blast
  let ?snaps = "setRGB_snaps (new_entries st st')"
  have calls: "map fst ?snaps = setRGB_calls (frame_events ?b)"
    using extends_by_new(1) [OF st'(2)] by (simp add: setRGB_snaps_fst new_events_def)
  then have lsn: "length ?snaps = 4096"
    using length_setRGB_calls_frame [of ?b] by (metis length_map)
  have lines: "list_all (\<lambda>ag. rgb_lines (fst (fst ag)) (fst (snd (fst ag))) (unat (snd (snd (fst ag)))) (snd ag)) ?snaps"
    using extends_by_new(2) [OF st'(2)] by (rule setRGB_snaps_lines)
  have "fst (?snaps ! (32 * p)) = (0x50, 0, of_nat p)
        \<and> snd (?snaps ! (32 * p)) (GPIOA 5) = (p = 4 \<or> p = 6)" if p: "p < 8" for p
  proof -
    have k: "32 * p < length ?snaps" using p lsn by simp
    have "fst (?snaps ! (32 * p)) = setRGB_calls (frame_events ?b) ! ((0 * 8 + p) * 32 + 0)"
      using nth_map [OF k, of fst] calls by (simp add: mult.commute)
    also have "\<dots> = (?b ! (32 * 0 + 0), ?b ! (32 * (0 + 16) + 0), of_nat p)"
      using p by (intro setRGB_calls_nth) simp_all
    also have "\<dots> = (0x50, 0, of_nat p)" by simp
    finally have f: "fst (?snaps ! (32 * p)) = (0x50, 0, of_nat p)" .
    from lines k have "rgb_lines (fst (fst (?snaps ! (32 * p)))) (fst (snd (fst (?snaps ! (32 * p)))))
      (unat (snd (snd (fst (?snaps ! (32 * p)))))) (snd (?snaps ! (32 * p)))"
      by (simp add: list_all_length)
    then have "snd (?snaps ! (32 * p)) (GPIOA 5) = bit (0x50 :: u32) p"
      unfolding f using p by (simp add: rgb_lines_def plane_word)
    then have "snd (?snaps ! (32 * p)) (GPIOA 5) = (p = 4 \<or> p = 6)"
      unfolding bit_0x50 [OF p] .
    with f show ?thesis by blast
  qed
  with st'(1) one show ?thesis by blast
qed

theorem setRGB_bit_planes_witness:
  "unat (6 :: u8) \<le> 7
   \<and> (\<exists>st'. setRGB 0x50 0 6 \<lparr>pins = (\<lambda>p. False), trace = []\<rparr> = Some st'
         \<and> pins st' (GPIOA 5) \<and> \<not> pins st' (GPIOA 6) \<and> \<not> pins st' (GPIOA 7)
         \<and> \<not> pins st' (GPIOA 8) \<and> \<not> pins st' (GPIOA 9) \<and> \<not> pins st' (GPIOA 10))"
proof -
  have h: "unat (6 :: u8) \<le> 7" by simp
  from setRGB_bit_planes [OF h, of "0x50" 0 "\<lparr>pins = (\<lambda>p. False), trace = []\<rparr>"] h
  show ?thesis by auto
qed

text \<open>
  C4, as the code has it: the gamma table built at startup has 256 entries, entry \<open>i\<close> being
  \<open>255 * (i/256) ^ 1.6\<close> rounded down; it is monotonically non-decreasing over the indices
  0 to 255, and maps 0 to 0 and 255 to 253. The code divides
  by \<open>256.0\<close>, so the last entry is \<open>255 * (255/256) ^ 1.6 = 253.4\<dots>\<close>, truncated to 253.
\<close>

theorem gammaTable_monotone:
  "\<exists>table. build_gammaTable = Some table \<and> length table = 256
     \<and> (\<forall>i<256. uint (table ! i) = \<lfloor>255 * (real i / 256) powr 1.6\<rfloor>)
     \<and> (\<forall>i j. i \<le> j \<and> j < 256 \<longrightarrow> table ! i \<le> table ! j)
     \<and> table ! 0 = 0 \<and> table ! 255 = 253"
proof -
  let ?t = "map gamma_entry [0..<256]"
  have "?t ! i \<le> ?t ! j" if "i \<le> j" "j < 256" for i j
    using that by (simp add: gamma_entry_mono)
  moreover have "uint (?t ! i) = \<lfloor>255 * (real i / 256) powr 1.6\<rfloor>" if "i < 256" for i
    using that uint_gamma_entry [OF that] by (simp only: nth_map_upt diff_zero add_0)
  moreover have "?t ! 0 = 0" "?t ! 255 = 253"
    by (simp_all add: gamma_entry_0 gamma_entry_255)
  ultimately show ?thesis
    using build_gammaTable_eq by (intro exI [of _ ?t]) simp
qed

theorem gammaTable_monotone_witness:
  "\<exists>table. build_gammaTable = Some table \<and> (10 :: nat) \<le> 200 \<and> (200 :: nat) < 256
     \<and> table ! 10 \<le> table ! 200"
proof -
  from gammaTable_monotone obtain table where
    t: "build_gammaTable = Some table" "\<forall>i j. i \<le> j \<and> j < 256 \<longrightarrow> table ! i \<le> table ! j"
    by blast
  from t(2) have "table ! 10 \<le> table ! 200" by simp
  with t(1) show ?thesis by (intro exI [of _ table]) simp
qed

text \<open>C4 as stated fails at index 255: the entry is 253, not 255.\<close>

theorem gammaTable_255_not_255:
  "build_gammaTable \<noteq> None \<and> the build_gammaTable ! 255 = 253 \<and> the build_gammaTable ! 255 \<noteq> 255"
  by (simp add: build_gammaTable_eq gamma_entry_255)

text \<open>
  C8, as the code has it: the startup test pattern sets exactly the four corner pixels
  (indices 0, 31, 992, 1023) of the cleared framebuffer, to four distinct values; those at
  0, 31 and 992 have exactly one non-zero 8-bit channel, the one at 1023 (\<open>0x00505000\<close>)
  has two; every other pixel is zero.
\<close>

theorem test_pattern_corners:
  "\<exists>fb. test_pattern = Some fb \<and> length fb = 1024
     \<and> fb ! 0 = 0x50 \<and> fb ! 31 = 0x5000 \<and> fb ! 992 = 0x500000 \<and> fb ! 1023 = 0x505000
     \<and> distinct [fb ! 0, fb ! 31, fb ! 992, fb ! 1023]
     \<and> nonzero_channels (fb ! 0) = 1 \<and> nonzero_channels (fb ! 31) = 1
     \<and> nonzero_channels (fb ! 992) = 1 \<and> nonzero_channels (fb ! 1023) = 2
     \<and> (\<forall>i<1024. i \<notin> {0, 31, 992, 1023} \<longrightarrow> fb ! i = 0)"
  unfolding test_pattern_eq by (simp add: nonzero_channels_vals)

theorem test_pattern_corners_witness:
  "\<exists>fb. test_pattern = Some fb \<and> (5 :: nat) < 1024 \<and> (5 :: nat) \<notin> {0, 31, 992, 1023} \<and> fb ! 5 = 0"
proof -
  from test_pattern_corners obtain fb where
    fb: "test_pattern = Some fb" "\<forall>i<1024. i \<notin> {0, 31, 992, 1023} \<longrightarrow> fb ! i = 0"
    by blast
  from fb(2) have "fb ! 5 = 0" by simp
  with fb(1) show ?thesis by (intro exI [of _ fb]) simp
qed

text \<open>C8 as stated fails at pixel 1023, which has two non-zero channels.\<close>

theorem test_pattern_1023_two_channels:
  "test_pattern \<noteq> None \<and> the test_pattern ! 1023 = 0x505000
   \<and> nonzero_channels (the test_pattern ! 1023) = 2
   \<and> nonzero_channels (the test_pattern ! 1023) \<noteq> 1"
  by (simp add: test_pattern_eq nonzero_channels_vals)

text \<open>
  C6: with the gamma table built at startup, every call of \<open>randomizeFramebuffer\<close> on the
  1024-pixel framebuffer returns; it advances the 8-bit counter by one with wrap-around, its
  ceiling \<open>max\<close> is the table entry at the new counter, or 1 when that entry is 0, and each
  of the three channels of every pixel it writes is at most that ceiling.
\<close>

theorem randomize_below_ceiling:
  assumes "build_gammaTable = Some table" "length buffer = 1024"
  shows "\<exists>buffer' g'. randomizeFramebuffer table rnd buffer g = Some (buffer', g')
     \<and> counter g' = counter g + 1
     \<and> unat (counter g') = (unat (counter g) + 1) mod 256
     \<and> length buffer' = 1024
     \<and> 1 \<le> ceiling_of (table ! unat (counter g'))
     \<and> (\<forall>px \<in> set buffer'.
           uint (channel 0 px) \<le> ceiling_of (table ! unat (counter g'))
         \<and> uint (channel 1 px) \<le> ceiling_of (table ! unat (counter g'))
         \<and> uint (channel 2 px) \<le> ceiling_of (table ! unat (counter g')))"
proof -
  have table: "table = map gamma_entry [0..<256]"
    using assms(1) by (simp add: build_gammaTable_eq)
  then have len: "length table = 256" by simp
  have nth: "table ! k = gamma_entry k" if "k < 256" for k
    using that unfolding table by (simp only: nth_map_upt diff_zero add_0)
  let ?c = "counter g + 1"
  let ?m = "ceiling_of (table ! unat ?c)"
  from randomize_run [OF len assms(2), of rnd g]
  obtain buffer' where b':
    "randomizeFramebuffer table rnd buffer g
       = Some (buffer', \<lparr>counter = ?c, rand_calls = rand_calls g + 3072\<rparr>)"
    "length buffer' = 1024"
    "\<forall>j<1024. buffer' ! j =
             pack (table ! (rnd (rand_calls g + 3 * j) mod nat ?m))
                  (table ! (rnd (rand_calls g + 3 * j + 1) mod nat ?m))
                  (table ! (rnd (rand_calls g + 3 * j + 2) mod nat ?m))"
    by blast
  have m: "1 \<le> ?m" "?m \<le> 255" using ceiling_of_bounds [of "table ! unat ?c"] by simp_all
  have entry: "uint (table ! (r mod nat ?m)) \<le> ?m" for r
  proof -
    have lt: "r mod nat ?m < nat ?m" using m(1) by simp
    then have le: "r mod nat ?m \<le> 255" using m(2) by linarith
    then have "table ! (r mod nat ?m) = gamma_entry (r mod nat ?m)"
      by (intro nth) simp
    then have "unat (table ! (r mod nat ?m)) \<le> r mod nat ?m"
      using gamma_entry_bound [OF le] by simp
    moreover have "uint (table ! (r mod nat ?m)) = int (unat (table ! (r mod nat ?m)))"
      by (rule uint_nat)
    moreover have "int (r mod nat ?m) < ?m" using lt m(1) by linarith
    ultimately show ?thesis by linarith
  qed
  have px: "uint (channel 0 px) \<le> ?m \<and> uint (channel 1 px) \<le> ?m \<and> uint (channel 2 px) \<le> ?m"
    if "px \<in> set buffer'" for px
  proof -
    from that obtain j where "j < 1024" "px = buffer' ! j"
      using b'(2) by (metis in_set_conv_nth)
    with b'(3) have e: "px =
             pack (table ! (rnd (rand_calls g + 3 * j) mod nat ?m))
                  (table ! (rnd (rand_calls g + 3 * j + 1) mod nat ?m))
                  (table ! (rnd (rand_calls g + 3 * j + 2) mod nat ?m))"
      by blast
    show ?thesis unfolding e channel_pack using entry by blast
  qed
  have "unat ?c = (unat (counter g) + 1) mod 256"
    by (simp add: unat_word_ariths)
  with b'(1,2) m(1) px show ?thesis by simp
qed

theorem randomize_below_ceiling_witness:
  "build_gammaTable = Some (map gamma_entry [0..<256]) \<and> length (replicate 1024 (0 :: u32)) = 1024
   \<and> (\<exists>buffer' g'. randomizeFramebuffer (map gamma_entry [0..<256]) (\<lambda>n. 7 * n) (replicate 1024 0)
                       \<lparr>counter = 255, rand_calls = 0\<rparr> = Some (buffer', g')
         \<and> counter g' = 0 \<and> length buffer' = 1024)"
proof -
  have len: "length (replicate 1024 (0 :: u32)) = 1024" by simp
  from randomize_below_ceiling [OF build_gammaTable_eq len, of "\<lambda>n. 7 * n" "\<lparr>counter = 255, rand_calls = 0\<rparr>"]
  show ?thesis using build_gammaTable_eq by auto
qed

text \<open>
  C10: on a framebuffer of 1024 pixels and a gamma table of 256 entries, \<open>displayBuffer\<close>
  and \<open>randomizeFramebuffer\<close> return without any access outside an array and without a
  division by zero (either would make the model fail): the indices \<open>32 * s + x\<close> and
  \<open>32 * (s + 16) + x\<close> lie in \<open>[0, 1024)\<close> for \<open>s\<close> in \<open>0..15\<close> and \<open>x\<close> in \<open>0..31\<close>, the counter
  is a valid index of the table, the ceiling lies between 1 and 255, and \<open>rand() % max\<close> is
  defined and a valid index of the table for every result of \<open>rand()\<close>.
\<close>

theorem array_accesses_in_bounds:
  assumes "length buffer = 1024" "length table = 256"
  shows "(\<exists>st'. displayBuffer buffer st = Some st')
     \<and> (\<exists>buffer' g'. randomizeFramebuffer table rnd buffer g = Some (buffer', g'))
     \<and> (\<forall>s x. 0 \<le> s \<and> s < scan \<and> 0 \<le> x \<and> x < MATRIX_WIDTH \<longrightarrow>
           0 \<le> MATRIX_WIDTH * s + x \<and> MATRIX_WIDTH * s + x < MATRIX_SIZE
         \<and> 0 \<le> MATRIX_WIDTH * (s + scan) + x \<and> MATRIX_WIDTH * (s + scan) + x < MATRIX_SIZE
         \<and> array_get buffer (MATRIX_WIDTH * s + x) \<noteq> None
         \<and> array_get buffer (MATRIX_WIDTH * (s + scan) + x) \<noteq> None)
     \<and> array_get table (uint (counter g + 1)) \<noteq> None
     \<and> 1 \<le> ceiling_of m \<and> ceiling_of m \<le> 255
     \<and> (\<exists>j. c_rem (int r) (ceiling_of m) = Some j \<and> 0 \<le> j \<and> j < ceiling_of m
            \<and> array_get table j \<noteq> None)"
proof -
  from displayBuffer_run [OF assms(1), of st]
  have d: "\<exists>st'. displayBuffer buffer st = Some st'" by blast
  from randomize_run [OF assms(2,1), of rnd g]
  have r: "\<exists>buffer' g'. randomizeFramebuffer table rnd buffer g = Some (buffer', g')" by blast
  have idx: "0 \<le> MATRIX_WIDTH * s + x \<and> MATRIX_WIDTH * s + x < MATRIX_SIZE
         \<and> 0 \<le> MATRIX_WIDTH * (s + scan) + x \<and> MATRIX_WIDTH * (s + scan) + x < MATRIX_SIZE
         \<and> array_get buffer (MATRIX_WIDTH * s + x) \<noteq> None
         \<and> array_get buffer (MATRIX_WIDTH * (s + scan) + x) \<noteq> None"
    if "0 \<le> s \<and> s < scan \<and> 0 \<le> x \<and> x < MATRIX_WIDTH" for s x
    using that assms(1)
    by (simp add: scan_def MATRIX_WIDTH_def MATRIX_HEIGHT_def MATRIX_SIZE_def array_get_def)
  have "uint (counter g + 1) < 256" using uint_bounded [of "counter g + 1"] by simp
  then have c: "array_get table (uint (counter g + 1)) \<noteq> None"
    using assms(2) by (simp add: array_get_def)
  have m: "1 \<le> ceiling_of m" "ceiling_of m \<le> 255" using ceiling_of_bounds [of m] by simp_all
  have "c_rem (int r) (ceiling_of m) = Some (int r mod ceiling_of m)"
    using m(1) by (intro c_rem_nonneg) simp_all
  moreover have "0 \<le> int r mod ceiling_of m" "int r mod ceiling_of m < ceiling_of m"
    using m(1) by simp_all
  moreover from this m(2) assms(2) have "array_get table (int r mod ceiling_of m) \<noteq> None"
    by (simp add: array_get_def)
  ultimately have j: "\<exists>j. c_rem (int r) (ceiling_of m) = Some j \<and> 0 \<le> j \<and> j < ceiling_of m
            \<and> array_get table j \<noteq> None"
    by blast
  from d r idx c m j show ?thesis by blast
qed

theorem array_accesses_in_bounds_witness:
  "length (replicate 1024 (0 :: u32)) = 1024 \<and> length (replicate 256 (0 :: u8)) = 256
   \<and> (\<exists>st'. displayBuffer (replicate 1024 0) \<lparr>pins = (\<lambda>p. False), trace = []\<rparr> = Some st')
   \<and> (\<exists>buffer' g'. randomizeFramebuffer (replicate 256 0) (\<lambda>n. n) (replicate 1024 0)
                       \<lparr>counter = 0, rand_calls = 0\<rparr> = Some (buffer', g'))"
proof -
  have l1: "length (replicate 1024 (0 :: u32)) = 1024" and l2: "length (replicate 256 (0 :: u8)) = 256"
    by simp_all
  from array_accesses_in_bounds [OF l1 l2, of "\<lparr>pins = (\<lambda>p. False), trace = []\<rparr>" "\<lambda>n. n"
      "\<lparr>counter = 0, rand_calls = 0\<rparr>"] l1 l2
  show ?thesis by blast
qed

text \<open>
  C7: from a state with frame counter 0, with the framebuffer and the gamma table in place,
  and with an interrupt that sets \<open>UartReady\<close> during every wait, the first 1000 iterations
  of \<open>while(1)\<close> complete; after them the frame counter is 1000, \<open>randomizeFramebuffer\<close> has
  been called exactly 200 times and the heartbeat message has been handed to the UART
  exactly 5 times. In general, after \<open>n\<close> iterations there were \<open>n div 5\<close> calls of
  \<open>randomizeFramebuffer\<close> and \<open>n div 200\<close> heartbeats. \<open>main\<close> enters the loop in such a state,
  with no call of \<open>randomizeFramebuffer\<close> and no heartbeat made before.
\<close>

theorem main_loop_cadence:
  assumes "frame st = 0" "length (framebuffer st) = 1024" "length (gammaTable st) = 256"
    "\<forall>t. \<exists>d. ready (t + d)"
  shows "(\<exists>st'. main_loop ready rnd 1000 st = Some st' \<and> frame st' = 1000
       \<and> count_list (calls st') CallDisplayBuffer = count_list (calls st) CallDisplayBuffer + 1000
       \<and> count_list (calls st') CallRandomize = count_list (calls st) CallRandomize + 200
       \<and> count_list (calls st') (CallTransmit (take 17 uartAliveMsg))
            = count_list (calls st) (CallTransmit (take 17 uartAliveMsg)) + 5)
     \<and> (\<forall>n \<le> 2147483647. \<exists>st'. main_loop ready rnd n st = Some st' \<and> frame st' = int n
       \<and> count_list (calls st') CallRandomize = count_list (calls st) CallRandomize + n div 5
       \<and> count_list (calls st') (CallTransmit (take 17 uartAliveMsg))
            = count_list (calls st) (CallTransmit (take 17 uartAliveMsg)) + n div 200)
     \<and> (\<exists>st0. startup g0 = Some st0 \<and> frame st0 = 0 \<and> length (framebuffer st0) = 1024
            \<and> length (gammaTable st0) = 256
            \<and> count_list (calls st0) CallRandomize = 0
            \<and> count_list (calls st0) (CallTransmit (take 17 uartAliveMsg)) = 0)"
proof -
  have a: "\<exists>st'. main_loop ready rnd 1000 st = Some st' \<and> frame st' = 1000
       \<and> count_list (calls st') CallDisplayBuffer = count_list (calls st) CallDisplayBuffer + 1000
       \<and> count_list (calls st') CallRandomize = count_list (calls st) CallRandomize + 200
       \<and> count_list (calls st') (CallTransmit (take 17 uartAliveMsg))
            = count_list (calls st) (CallTransmit (take 17 uartAliveMsg)) + 5"
    using main_loop_run [OF assms, of 1000 rnd] by simp blast
  have b: "\<exists>st'. main_loop ready rnd n st = Some st' \<and> frame st' = int n
       \<and> count_list (calls st') CallRandomize = count_list (calls st) CallRandomize + n div 5
       \<and> count_list (calls st') (CallTransmit (take 17 uartAliveMsg))
            = count_list (calls st) (CallTransmit (take 17 uartAliveMsg)) + n div 200"
    if "n \<le> 2147483647" for n
    using main_loop_run [OF assms that, of rnd] by blast
  have c: "\<exists>st0. startup g0 = Some st0 \<and> frame st0 = 0 \<and> length (framebuffer st0) = 1024
            \<and> length (gammaTable st0) = 256
            \<and> count_list (calls st0) CallRandomize = 0
            \<and> count_list (calls st0) (CallTransmit (take 17 uartAliveMsg)) = 0"
    using startup_calls [of g0] by blast
  from a b c show ?thesis by blast
qed

theorem main_loop_cadence_witness:
  "frame \<lparr>io = \<lparr>pins = (\<lambda>p. False), trace = []\<rparr>, framebuffer = replicate 1024 0,
          gammaTable = replicate 256 0, generator = \<lparr>counter = 0, rand_calls = 0\<rparr>,
          uart_reads = 0, calls = [], frame = 0\<rparr> = 0
   \<and> length (replicate 1024 (0 :: u32)) = 1024 \<and> length (replicate 256 (0 :: u8)) = 256
   \<and> (\<exists>st'. main_loop (\<lambda>t. True) (\<lambda>n. n) 1000
          \<lparr>io = \<lparr>pins = (\<lambda>p. False), trace = []\<rparr>, framebuffer = replicate 1024 0,
           gammaTable = replicate 256 0, generator = \<lparr>counter = 0, rand_calls = 0\<rparr>,
           uart_reads = 0, calls = [], frame = 0\<rparr> = Some st'
        \<and> frame st' = 1000
        \<and> count_list (calls st') CallDisplayBuffer = 1000
        \<and> count_list (calls st') CallRandomize = 200
        \<and> count_list (calls st') (CallTransmit (take 17 uartAliveMsg)) = 5)"
proof -
  let ?st = "\<lparr>io = \<lparr>pins = (\<lambda>p. False), trace = []\<rparr>, framebuffer = replicate 1024 (0 :: u32),
           gammaTable = replicate 256 (0 :: u8), generator = \<lparr>counter = 0, rand_calls = 0\<rparr>,
           uart_reads = 0, calls = [], frame = 0\<rparr>"
  have h: "frame ?st = 0" "length (framebuffer ?st) = 1024" "length (gammaTable ?st) = 256"
    "\<forall>t. \<exists>d. (\<lambda>t. True) (t + d)"
    by simp_all
  from main_loop_cadence [OF h, of "\<lambda>n. n"]
  show ?thesis by simp
qed

end
